theory Spec2Isabelle
  imports Complex_Main "HOL-Library.Word"
begin

unbundle bit_operations_syntax

section \<open>Python values\<close>

text \<open>
  A Python \<open>str\<close> is a sequence of Unicode code points; it is modelled as a list of
  natural numbers, one per code point, so that \<open>len\<close> counts what Python counts and the
  bullet \<open>U+2022\<close> is one character.  \<open>str\<close> embeds an ASCII literal.  Python integers
  are \<open>int\<close>.  A raised exception is a value \<open>Inl e\<close> of a sum type.
\<close>

type_synonym pystr = "nat list"

definition str :: "string \<Rightarrow> pystr" where
  "str cs = map (of_char :: char \<Rightarrow> nat) cs"

datatype py_error = ValueError | TypeError | AttributeError | APIError | OSError

text \<open>
  A slice \<open>xs[i:j]\<close> accepts any two integers: a negative index counts from the end,
  and both indices are clamped to the length.
\<close>

definition py_index :: "nat \<Rightarrow> int \<Rightarrow> nat" where
  "py_index n i = (if i < 0 then nat (max 0 (i + int n)) else nat (min i (int n)))"

definition py_slice :: "'a list \<Rightarrow> int \<Rightarrow> int \<Rightarrow> 'a list" where
  "py_slice xs i j = drop (py_index (length xs) i) (take (py_index (length xs) j) xs)"

text \<open>
  \<open>str.isspace\<close>, which \<open>str.strip()\<close> and the regular expression class \<open>\s\<close> use:
  the code points Python treats as whitespace.
\<close>

definition py_isspace :: "nat \<Rightarrow> bool" where
  "py_isspace c =
     ((9 \<le> c \<and> c \<le> 13) \<or> (28 \<le> c \<and> c \<le> 32) \<or> c = 133 \<or> c = 160 \<or> c = 5760
      \<or> (8192 \<le> c \<and> c \<le> 8202) \<or> c = 8232 \<or> c = 8233 \<or> c = 8239 \<or> c = 8287
      \<or> c = 12288)"

definition lstrip :: "pystr \<Rightarrow> pystr" where
  "lstrip s = dropWhile py_isspace s"

definition rstrip :: "pystr \<Rightarrow> pystr" where
  "rstrip s = rev (dropWhile py_isspace (rev s))"

definition strip :: "pystr \<Rightarrow> pystr" where
  "strip s = rstrip (lstrip s)"

definition lstrip_char :: "nat \<Rightarrow> pystr \<Rightarrow> pystr" where
  "lstrip_char c s = dropWhile (\<lambda>x. x = c) s"

definition startswith :: "pystr \<Rightarrow> pystr \<Rightarrow> bool" where
  "startswith p s = (take (length p) s = p)"

text \<open>\<open>sub in s\<close> on strings.\<close>

fun contains :: "pystr \<Rightarrow> pystr \<Rightarrow> bool" where
  "contains sub [] = (sub = [])"
| "contains sub (c # cs) = (startswith sub (c # cs) \<or> contains sub cs)"

text \<open>\<open>sep.join(parts)\<close>.\<close>

fun join :: "pystr \<Rightarrow> pystr list \<Rightarrow> pystr" where
  "join sep [] = []"
| "join sep [x] = x"
| "join sep (x # y # ys) = x @ sep @ join sep (y # ys)"

section \<open>Chunker (utils.chunk_text)\<close>

text \<open>
  The \<open>while start < text_len\<close> loop of \<open>chunk_text\<close>.  The loop has no guard on
  \<open>chunk_size\<close>, so it is defined as a partial function: \<open>None\<close> is the value of a
  run that never returns.
\<close>

definition chunk_end :: "pystr \<Rightarrow> int \<Rightarrow> int \<Rightarrow> int" where
  "chunk_end text chunk_size start = min (start + chunk_size) (int (length text))"

partial_function (option) chunk_loop ::
  "pystr \<Rightarrow> int \<Rightarrow> int \<Rightarrow> pystr list \<Rightarrow> pystr list option" where
  "chunk_loop text chunk_size start chunks =
     (if start < int (length text)
      then (let end = chunk_end text chunk_size start
            in chunk_loop text chunk_size end (chunks @ [py_slice text start end]))
      else Some chunks)"

definition chunk_text :: "pystr \<Rightarrow> int \<Rightarrow> pystr list option" where
  "chunk_text text chunk_size = chunk_loop text chunk_size 0 []"

definition CHUNK_SIZE :: int where
  "CHUNK_SIZE = 7000"


section \<open>Hex colours (utils._hex_to_rgbcolor)\<close>

text \<open>
  \<open>int(s, 16)\<close>: surrounding whitespace is stripped, a sign and a \<open>0x\<close> prefix are
  accepted, and single underscores may separate digits.  The digits are the ASCII
  hexadecimal digits (the decimal digits of other scripts, which \<open>int\<close> also accepts,
  are not modelled).  Anything else raises \<open>ValueError\<close>.
\<close>

definition hex_digit_val :: "nat \<Rightarrow> nat option" where
  "hex_digit_val c =
     (if 48 \<le> c \<and> c \<le> 57 then Some (c - 48)
      else if 97 \<le> c \<and> c \<le> 102 then Some (c - 87)
      else if 65 \<le> c \<and> c \<le> 70 then Some (c - 55)
      else None)"

fun hex_digits :: "pystr \<Rightarrow> int \<Rightarrow> int option" where
  "hex_digits [] acc = Some acc"
| "hex_digits (c # cs) acc =
     (if c = 95
      then (case cs of
              [] \<Rightarrow> None
            | d # ds \<Rightarrow> (case hex_digit_val d of
                          None \<Rightarrow> None
                        | Some v \<Rightarrow> hex_digits ds (16 * acc + int v)))
      else (case hex_digit_val c of
              None \<Rightarrow> None
            | Some v \<Rightarrow> hex_digits cs (16 * acc + int v)))"

definition py_int16 :: "pystr \<Rightarrow> py_error + int" where
  "py_int16 s =
     (let t = strip s;
          neg = (t \<noteq> [] \<and> hd t = 45);
          u = (if t \<noteq> [] \<and> (hd t = 43 \<or> hd t = 45) then tl t else t);
          pre = (startswith (str ''0x'') u \<or> startswith (str ''0X'') u);
          v = (if pre then drop 2 u else u)
      in if v = [] \<or> (\<not> pre \<and> hd v = 95) then Inl ValueError
         else (case hex_digits v 0 of
                 None \<Rightarrow> Inl ValueError
               | Some n \<Rightarrow> Inr (if neg then - n else n)))"

text \<open>
  \<open>docx.shared.RGBColor(r, g, b)\<close> is a triple of integers; the constructor raises
  \<open>ValueError\<close> unless each component is in \<open>0..255\<close>.
\<close>

datatype rgbcolor = RGB int int int

definition RGBColor :: "int \<Rightarrow> int \<Rightarrow> int \<Rightarrow> py_error + rgbcolor" where
  "RGBColor r g b =
     (if 0 \<le> r \<and> r \<le> 255 \<and> 0 \<le> g \<and> g \<le> 255 \<and> 0 \<le> b \<and> b \<le> 255
      then Inr (RGB r g b) else Inl ValueError)"

definition hex_to_rgbcolor :: "pystr \<Rightarrow> py_error + rgbcolor" where
  "hex_to_rgbcolor hexstr0 =
     (let hexstr = strip hexstr0
      in if length hexstr \<noteq> 6 then Inl ValueError
         else (case py_int16 (py_slice hexstr 0 2) of
                 Inl e \<Rightarrow> Inl e
               | Inr r \<Rightarrow>
                  (case py_int16 (py_slice hexstr 2 4) of
                     Inl e \<Rightarrow> Inl e
                   | Inr g \<Rightarrow>
                      (case py_int16 (py_slice hexstr 4 6) of
                         Inl e \<Rightarrow> Inl e
                       | Inr b \<Rightarrow> RGBColor r g b))))"


section \<open>Number formatting\<close>

definition digit_char :: "nat \<Rightarrow> nat" where
  "digit_char d = (if d < 10 then 48 + d else 55 + d)"

text \<open>The digits of a natural number in a base, most significant first, upper case.\<close>

function digits_in :: "nat \<Rightarrow> nat \<Rightarrow> pystr" where
  "digits_in b n =
     (if b < 2 \<or> n < b then [digit_char n] else digits_in b (n div b) @ [digit_char (n mod b)])"
  by pat_completeness auto
termination
  by (relation "measure snd") auto

text \<open>\<open>f"{n:02X}"\<close>: upper-case hexadecimal, zero-padded to width 2 (sign included).\<close>

definition fmt_02X :: "int \<Rightarrow> pystr" where
  "fmt_02X n =
     (let d = digits_in 16 (nat \<bar>n\<bar>)
      in if n < 0 then 45 # replicate (1 - length d) 48 @ d
         else replicate (2 - length d) 48 @ d)"

text \<open>
  \<open>f"{x:.1f}"\<close>: the value rounded to one decimal place, ties to even.  A float is an
  exact binary fraction, so the font size is modelled by the rational number it
  denotes.
\<close>

definition round_half_even :: "rat \<Rightarrow> int" where
  "round_half_even x =
     (let f = \<lfloor>x\<rfloor>; d = x - of_int f
      in if d < 1 / 2 then f else if 1 / 2 < d then f + 1 else if even f then f else f + 1)"

definition fmt_1f :: "rat \<Rightarrow> pystr" where
  "fmt_1f x =
     (let n = nat (round_half_even (\<bar>x\<bar> * 10))
      in (if x < 0 then [45] else []) @ digits_in 10 (n div 10) @ [46] @ digits_in 10 (n mod 10))"

text \<open>An upper-case hexadecimal digit.\<close>

definition upper_hex :: "nat \<Rightarrow> bool" where
  "upper_hex c = ((48 \<le> c \<and> c \<le> 57) \<or> (65 \<le> c \<and> c \<le> 70))"

section \<open>PDF extractor (utils.extract_text_from_pdf)\<close>

text \<open>
  The decoded page tree that \<open>page.get_text("dict")\<close> returns: a page is a list of
  blocks, a block has lines or not (an image block), a line is a list of spans.
\<close>

record span =
  span_text :: pystr
  span_font :: pystr
  span_size :: rat
  span_color :: int

type_synonym pdf_line = "span list"
type_synonym pdf_block = "pdf_line list option"
type_synonym pdf_page = "pdf_block list"

definition is_bold :: "pystr \<Rightarrow> bool" where
  "is_bold font_name = contains (str ''Bold'') font_name"

definition is_italic :: "pystr \<Rightarrow> bool" where
  "is_italic font_name =
     (contains (str ''Italic'') font_name \<or> contains (str ''Oblique'') font_name)"

definition font_family :: "pystr \<Rightarrow> pystr" where
  "font_family font_name =
     (if 45 \<in> set font_name then takeWhile (\<lambda>c. c \<noteq> 45) font_name else font_name)"

definition color_hex :: "int \<Rightarrow> pystr" where
  "color_hex color_val =
     (let r = (drop_bit 16 color_val) AND 255;
          g = (drop_bit 8 color_val) AND 255;
          b = color_val AND 255
      in 35 # fmt_02X r @ fmt_02X g @ fmt_02X b)"

text \<open>The body of the loop over spans: \<open>None\<close> is the \<open>continue\<close> on an empty text.\<close>

definition styled_span :: "span \<Rightarrow> pystr option" where
  "styled_span sp =
     (let text = strip (span_text sp)
      in if text = [] then None
         else
           (let font_name = span_font sp;
                hx = color_hex (span_color sp);
                styled0 = str ''<size='' @ fmt_1f (span_size sp) @ str ''><font=''
                          @ font_family font_name @ str ''><'' @ hx @ str ''>'' @ text
                          @ str ''</'' @ hx @ str ''></font></size>'';
                styled1 = (if is_bold font_name
                           then str ''<b>'' @ styled0 @ str ''</b>'' else styled0);
                styled2 = (if is_italic font_name
                           then str ''<i>'' @ styled1 @ str ''</i>'' else styled1)
            in Some styled2))"

definition pdf_paragraph :: "pdf_line list \<Rightarrow> pystr list" where
  "pdf_paragraph lines = List.map_filter styled_span (concat lines)"

definition pdf_block_text :: "pdf_block \<Rightarrow> pystr list" where
  "pdf_block_text block =
     (case block of
        None \<Rightarrow> []
      | Some lines \<Rightarrow>
          (let paragraph = pdf_paragraph lines
           in if paragraph = [] then [] else [concat paragraph, [10, 10]]))"

definition extract_text_from_pdf :: "pdf_page list \<Rightarrow> pystr" where
  "extract_text_from_pdf pdf = strip (concat (concat (map pdf_block_text (concat pdf))))"


section \<open>Word-processing document model\<close>

text \<open>
  A run of the document library: its text, the three inline flags (an unset flag is
  \<open>None\<close> in the library and false in every test the code makes) and the font colour,
  if one is set.  A paragraph has a style name and runs; its text is the text of its
  runs.  Run text is stored as given.
\<close>

record run =
  run_text :: pystr
  bold :: bool
  italic :: bool
  underline :: bool
  color :: "rgbcolor option"

record para =
  style_name :: pystr
  runs :: "run list"

definition add_run :: "pystr \<Rightarrow> run" where
  "add_run text = \<lparr>run_text = text, bold = False, italic = False, underline = False,
                    color = None\<rparr>"

definition para_text :: "para \<Rightarrow> pystr" where
  "para_text p = concat (map run_text (runs p))"

section \<open>Tag tokenizer (utils._add_runs_from_text)\<close>

text \<open>
  A successful \<open>re.search\<close>: where the match starts, its group 1, where it ends.
\<close>

record re_match =
  m_start :: nat
  m_group1 :: pystr
  m_end :: nat

definition shift_match :: "re_match \<Rightarrow> re_match" where
  "shift_match m = m\<lparr>m_start := Suc (m_start m), m_end := Suc (m_end m)\<rparr>"

text \<open>
  The first index at which the two-character delimiter \<open>cc\<close> starts.
\<close>

fun find_pair :: "nat \<Rightarrow> pystr \<Rightarrow> nat option" where
  "find_pair c (x # y # zs) =
     (if x = c \<and> y = c then Some 0 else map_option Suc (find_pair c (y # zs)))"
| "find_pair c zs = None"

text \<open>
  \<open>cc(.+?)cc\<close> tried at the start of the text (with \<open>re.DOTALL\<close>, so \<open>.\<close> is any
  character): the delimiter, then the shortest non-empty content that the delimiter
  follows.
\<close>

definition pair_match_here :: "nat \<Rightarrow> pystr \<Rightarrow> re_match option" where
  "pair_match_here c t =
     (case t of
        x # y # r # rs \<Rightarrow>
          (if x = c \<and> y = c
           then (case find_pair c rs of
                   None \<Rightarrow> None
                 | Some k \<Rightarrow> Some \<lparr>m_start = 0, m_group1 = take (Suc k) (r # rs),
                                    m_end = k + 5\<rparr>)
           else None)
      | _ \<Rightarrow> None)"

text \<open>\<open>search\<close>: the leftmost position at which the pattern matches.\<close>

fun pair_search :: "nat \<Rightarrow> pystr \<Rightarrow> re_match option" where
  "pair_search c [] = None"
| "pair_search c (x # xs) =
     (case pair_match_here c (x # xs) of
        Some m \<Rightarrow> Some m
      | None \<Rightarrow> map_option shift_match (pair_search c xs))"

definition bold_re_search :: "pystr \<Rightarrow> re_match option" where
  "bold_re_search text = pair_search 42 text"

definition underline_re_search :: "pystr \<Rightarrow> re_match option" where
  "underline_re_search text = pair_search 95 text"

text \<open>
  The italic pattern \<open>(?<!\*)\*(?!\*)(.+?)(?<!\*)\*(?!\*)\<close>.  A lone star is a \<open>*\<close>
  with no \<open>*\<close> before it and none after it; \<open>prev\<close> is the character before the
  position looked at, \<open>None\<close> at the start of the text.
\<close>

definition lone_star :: "nat option \<Rightarrow> pystr \<Rightarrow> bool" where
  "lone_star prev t =
     (case t of
        [] \<Rightarrow> False
      | x # xs \<Rightarrow> x = 42 \<and> prev \<noteq> Some 42 \<and> (case xs of [] \<Rightarrow> True | y # _ \<Rightarrow> y \<noteq> 42))"

fun find_lone_star :: "nat option \<Rightarrow> pystr \<Rightarrow> nat option" where
  "find_lone_star prev [] = None"
| "find_lone_star prev (x # xs) =
     (if lone_star prev (x # xs) then Some 0
      else map_option Suc (find_lone_star (Some x) xs))"

definition italic_match_here :: "nat option \<Rightarrow> pystr \<Rightarrow> re_match option" where
  "italic_match_here prev t =
     (case t of
        x # r # rs \<Rightarrow>
          (if lone_star prev (x # r # rs)
           then (case find_lone_star (Some r) rs of
                   None \<Rightarrow> None
                 | Some k \<Rightarrow> Some \<lparr>m_start = 0, m_group1 = take (Suc k) (r # rs),
                                    m_end = k + 3\<rparr>)
           else None)
      | _ \<Rightarrow> None)"

fun italic_search :: "nat option \<Rightarrow> pystr \<Rightarrow> re_match option" where
  "italic_search prev [] = None"
| "italic_search prev (x # xs) =
     (case italic_match_here prev (x # xs) of
        Some m \<Rightarrow> Some m
      | None \<Rightarrow> map_option shift_match (italic_search (Some x) xs))"

definition italic_re_search :: "pystr \<Rightarrow> re_match option" where
  "italic_re_search text = italic_search None text"

datatype kind = KB | KU | KI

text \<open>
  The candidate list \<open>[(m_b, "b"), (m_u, "u"), (m_i, "i")]\<close> without the failed
  searches, and \<open>min(matches, key=start)\<close>, which keeps the first of the candidates
  with the least start.
\<close>

definition matches :: "pystr \<Rightarrow> (re_match \<times> kind) list" where
  "matches text =
     List.map_filter (\<lambda>(m, k). map_option (\<lambda>x. (x, k)) m)
       [(bold_re_search text, KB), (underline_re_search text, KU),
        (italic_re_search text, KI)]"

definition min_by_start :: "(re_match \<times> kind) \<Rightarrow> (re_match \<times> kind) list \<Rightarrow> re_match \<times> kind" where
  "min_by_start m0 ms =
     foldl (\<lambda>best x. if m_start (fst x) < m_start (fst best) then x else best) m0 ms"

definition plain_run :: "pystr \<Rightarrow> rgbcolor option \<Rightarrow> run" where
  "plain_run text color_rgb = (add_run text)\<lparr>color := color_rgb\<rparr>"

definition fmt_run :: "kind \<Rightarrow> pystr \<Rightarrow> rgbcolor option \<Rightarrow> run" where
  "fmt_run k content color_rgb =
     (case k of
        KB \<Rightarrow> (add_run content)\<lparr>bold := True, color := color_rgb\<rparr>
      | KU \<Rightarrow> (add_run content)\<lparr>underline := True, color := color_rgb\<rparr>
      | KI \<Rightarrow> (add_run content)\<lparr>italic := True, color := color_rgb\<rparr>)"

text \<open>
  Every match ends after at least three characters, and \<open>min\<close> returns one of the
  candidates, so each iteration of the loop below shortens the text.
\<close>

lemma pair_match_here_end: "pair_match_here c t = Some m \<Longrightarrow> 0 < m_end m"
  by (auto simp: pair_match_here_def split: list.splits if_splits option.splits)

lemma pair_search_end: "pair_search c t = Some m \<Longrightarrow> 0 < m_end m"
  by (induction t arbitrary: m)
     (auto simp: shift_match_def split: option.splits dest: pair_match_here_end)

lemma italic_match_here_end: "italic_match_here prev t = Some m \<Longrightarrow> 0 < m_end m"
  by (auto simp: italic_match_here_def split: list.splits if_splits option.splits)

lemma italic_search_end: "italic_search prev t = Some m \<Longrightarrow> 0 < m_end m"
  by (induction t arbitrary: m prev)
     (auto simp: shift_match_def split: option.splits dest: italic_match_here_end)

lemma matches_end: "(m, k) \<in> set (matches t) \<Longrightarrow> 0 < m_end m"
  by (auto simp: matches_def List.map_filter_def bold_re_search_def underline_re_search_def
        italic_re_search_def split: if_splits dest: pair_search_end italic_search_end)

lemma min_by_start_mem: "min_by_start m0 ms \<in> set (m0 # ms)"
  unfolding min_by_start_def
proof (induction ms arbitrary: m0)
  case Nil
  show ?case by simp
next
  case (Cons a ms)
  let ?f = "\<lambda>best x. if m_start (fst x) < m_start (fst best) then x else best"
  have "foldl ?f (?f m0 a) ms \<in> set (?f m0 a # ms)" by (rule Cons.IH)
  moreover have "set (?f m0 a # ms) \<subseteq> set (m0 # a # ms)" by auto
  ultimately show ?case by (simp only: foldl_Cons) blast
qed

text \<open>
  The \<open>while text:\<close> loop.  It returns the runs it appends to the paragraph, in
  order.
\<close>

function add_runs_from_text :: "pystr \<Rightarrow> rgbcolor option \<Rightarrow> run list" where
  "add_runs_from_text text color_rgb =
     (if text = [] then []
      else (case matches text of
              [] \<Rightarrow> [plain_run text color_rgb]
            | m0 # ms \<Rightarrow>
                (let (m, k) = min_by_start m0 ms;
                     before = (if m_start m > 0 then [plain_run (take (m_start m) text) color_rgb]
                               else [])
                 in before @ [fmt_run k (m_group1 m) color_rgb]
                    @ add_runs_from_text (drop (m_end m) text) color_rgb)))"
  by pat_completeness auto
termination
proof (relation "measure (\<lambda>(text, c). length text)")
  show "wf (measure (\<lambda>(text, c). length text))" by simp
next
  fix t :: pystr and color_rgb :: "rgbcolor option" and m0 ms x m k
  assume ne: "t \<noteq> []" and ms: "matches t = m0 # ms"
    and x: "x = min_by_start m0 ms" and mk: "(m, k) = x"
  have "(m, k) \<in> set (matches t)"
    using min_by_start_mem [of m0 ms] x mk ms by simp
  then have "0 < m_end m" by (rule matches_end)
  with ne show "((drop (m_end m) t, color_rgb), (t, color_rgb))
        \<in> measure (\<lambda>(text, c). length text)"
    by (cases t) auto
qed

declare add_runs_from_text.simps [simp del]



section \<open>DOCX extractor (utils.extract_text_from_docx)\<close>

text \<open>
  \<open>get_color_tag\<close>: a colour name by thresholds on the components, else \<open>#\<close> and the
  colour printed as six upper-case hexadecimal digits; \<open>None\<close> when the run has no
  colour.
\<close>

definition get_color_tag :: "run \<Rightarrow> pystr option" where
  "get_color_tag rn =
     (case color rn of
        None \<Rightarrow> None
      | Some (RGB r g b) \<Rightarrow>
          Some (if r > 200 \<and> g < 80 \<and> b < 80 then str ''red''
                else if b > 200 \<and> r < 80 \<and> g < 80 then str ''blue''
                else if g > 150 \<and> r < 100 then str ''green''
                else if r > 200 \<and> g > 200 \<and> b < 100 then str ''yellow''
                else if r > 100 \<and> g > 100 \<and> b > 100 then str ''gray''
                else 35 # fmt_02X r @ fmt_02X g @ fmt_02X b))"

text \<open>
  The body of the loop over the runs of a paragraph: what one run adds to
  \<open>formatted_text\<close> (nothing for a run without text).
\<close>

definition run_markup :: "run \<Rightarrow> pystr" where
  "run_markup r =
     (let text0 = run_text r
      in if text0 = [] then []
         else
           (let color_tag = get_color_tag r;
                text1 = (if bold r then str ''**'' @ text0 @ str ''**'' else text0);
                text2 = (if italic r then str ''*'' @ text1 @ str ''*'' else text1);
                text3 = (if underline r then str ''__'' @ text2 @ str ''__'' else text2)
            in (case color_tag of
                  None \<Rightarrow> text3
                | Some tag \<Rightarrow> str ''<'' @ tag @ str ''>'' @ text3 @ str ''</'' @ tag @ str ''>'')))"

text \<open>
  \<open>str.lower\<close> and \<open>str.isdigit\<close> on style names: the ASCII letters are lowered; the
  digits are the ASCII digits and the superscripts \<open>U+00B2\<close>, \<open>U+00B3\<close>, \<open>U+00B9\<close>,
  which \<open>isdigit\<close> accepts and \<open>int\<close> rejects (letters and digits of other scripts are
  not modelled).
\<close>

definition py_lower :: "pystr \<Rightarrow> pystr" where
  "py_lower s = map (\<lambda>c. if 65 \<le> c \<and> c \<le> 90 then c + 32 else c) s"

definition py_isdigit :: "nat \<Rightarrow> bool" where
  "py_isdigit c = ((48 \<le> c \<and> c \<le> 57) \<or> c = 178 \<or> c = 179 \<or> c = 185)"

definition py_int10 :: "pystr \<Rightarrow> py_error + int" where
  "py_int10 s =
     (if s \<noteq> [] \<and> (\<forall>c \<in> set s. 48 \<le> c \<and> c \<le> 57)
      then Inr (foldl (\<lambda>acc c. 10 * acc + int (c - 48)) 0 s)
      else Inl ValueError)"

text \<open>
  One iteration of the loop over paragraphs: \<open>Inr None\<close> is the \<open>continue\<close> on a
  paragraph without text, \<open>Inl\<close> the exception \<open>int(level)\<close> can raise.
\<close>

definition para_line :: "para \<Rightarrow> py_error + pystr option" where
  "para_line p =
     (if strip (para_text p) = [] then Inr None
      else
        (let sn = py_lower (style_name p)
         in if startswith (str ''heading'') sn
            then (let ds = filter py_isdigit sn;
                      level = (if ds = [] then str ''1'' else ds)
                  in (case py_int10 level of
                        Inl e \<Rightarrow> Inl e
                      | Inr n \<Rightarrow> Inr (Some (replicate (nat n) 35 @ [32] @ strip (para_text p)))))
            else
              (let prefix =
                     (if contains (str ''list bullet'') sn \<or> contains (str ''list paragraph'') sn
                      then [8226, 32]
                      else if contains (str ''list number'') sn then str ''1. ''
                      else [])
               in Inr (Some (prefix @ strip (concat (map run_markup (runs p))))))))"

fun para_lines :: "para list \<Rightarrow> py_error + pystr list" where
  "para_lines [] = Inr []"
| "para_lines (p # ps) =
     (case para_line p of
        Inl e \<Rightarrow> Inl e
      | Inr l \<Rightarrow>
          (case para_lines ps of
             Inl e \<Rightarrow> Inl e
           | Inr ls \<Rightarrow> Inr ((case l of None \<Rightarrow> [] | Some x \<Rightarrow> [x]) @ ls)))"

text \<open>A table is its rows, a row the texts of its cells.\<close>

type_synonym table = "pystr list list"

record document =
  paragraphs :: "para list"
  tables :: "table list"

definition table_lines :: "table \<Rightarrow> pystr list" where
  "table_lines t = map (\<lambda>row. join (str '' | '') (map strip row)) t @ [[]]"

definition extract_text_from_docx :: "document \<Rightarrow> py_error + pystr" where
  "extract_text_from_docx doc =
     (case para_lines (paragraphs doc) of
        Inl e \<Rightarrow> Inl e
      | Inr ls \<Rightarrow> Inr (strip (join [10, 10] (ls @ concat (map table_lines (tables doc))))))"

section \<open>DOCX reconstructor (utils.save_docx_text)\<close>

text \<open>
  The colour-tag pattern \<open><#([0-9A-Fa-f]{6})>(.*?)</#\1>\<close> with \<open>re.DOTALL\<close>.
  \<open>find_sub\<close> is the first index at which a string occurs.
\<close>

definition is_hex :: "nat \<Rightarrow> bool" where
  "is_hex c = ((48 \<le> c \<and> c \<le> 57) \<or> (65 \<le> c \<and> c \<le> 70) \<or> (97 \<le> c \<and> c \<le> 102))"

fun find_sub :: "pystr \<Rightarrow> pystr \<Rightarrow> nat option" where
  "find_sub sub [] = (if sub = [] then Some 0 else None)"
| "find_sub sub (c # cs) =
     (if startswith sub (c # cs) then Some 0 else map_option Suc (find_sub sub cs))"

record color_match =
  c_start :: nat
  c_hex :: pystr
  c_inner :: pystr
  c_end :: nat

definition shift_color_match :: "color_match \<Rightarrow> color_match" where
  "shift_color_match m = m\<lparr>c_start := Suc (c_start m), c_end := Suc (c_end m)\<rparr>"

definition open_tag_here :: "pystr \<Rightarrow> pystr option" where
  "open_tag_here t =
     (if 9 \<le> length t \<and> take 2 t = str ''<#'' \<and> (\<forall>c \<in> set (take 6 (drop 2 t)). is_hex c)
         \<and> t ! 8 = 62
      then Some (take 6 (drop 2 t)) else None)"

definition color_match_here :: "pystr \<Rightarrow> color_match option" where
  "color_match_here t =
     (case open_tag_here t of
        None \<Rightarrow> None
      | Some hx \<Rightarrow>
          (case find_sub (str ''</#'' @ hx @ str ''>'') (drop 9 t) of
             None \<Rightarrow> None
           | Some k \<Rightarrow> Some \<lparr>c_start = 0, c_hex = hx, c_inner = take k (drop 9 t),
                              c_end = k + 19\<rparr>))"

fun color_search :: "pystr \<Rightarrow> color_match option" where
  "color_search [] = None"
| "color_search (x # xs) =
     (case color_match_here (x # xs) of
        Some m \<Rightarrow> Some m
      | None \<Rightarrow> map_option shift_color_match (color_search xs))"

lemma color_search_end: "color_search t = Some m \<Longrightarrow> 0 < c_end m"
  by (induction t arbitrary: m)
     (auto simp: shift_color_match_def color_match_here_def split: option.splits)

text \<open>
  The loop over \<open>finditer\<close> and the suffix after the last match: the runs added to
  the paragraph.  A failed colour conversion is caught and the inner text is added
  without colour.
\<close>

definition color_of_hex :: "pystr \<Rightarrow> rgbcolor option" where
  "color_of_hex hx = (case hex_to_rgbcolor hx of Inl e \<Rightarrow> None | Inr rgb \<Rightarrow> Some rgb)"

function color_runs :: "pystr \<Rightarrow> run list" where
  "color_runs block =
     (case color_search block of
        None \<Rightarrow> (if 0 < length block then add_runs_from_text block None else [])
      | Some m \<Rightarrow>
          (if c_start m > 0 then add_runs_from_text (take (c_start m) block) None else [])
          @ add_runs_from_text (c_inner m) (color_of_hex (c_hex m))
          @ color_runs (drop (c_end m) block))"
  by pat_completeness auto
termination
proof (relation "measure length")
  show "wf (measure length)" by simp
next
  fix block :: pystr and m
  assume "color_search block = Some m"
  then have "0 < c_end m" "block \<noteq> []"
    by (auto dest: color_search_end)
  then show "(drop (c_end m) block, block) \<in> measure length"
    by (cases block) auto
qed

declare color_runs.simps [simp del]

text \<open>
  \<open>doc.add_heading(text, level)\<close> of the document library: levels outside \<open>0..9\<close>
  raise \<open>ValueError\<close>; the style is \<open>Title\<close> for level 0 and \<open>Heading n\<close> otherwise;
  a non-empty text becomes one run.  \<open>doc.add_paragraph("", style)\<close> has no runs.
\<close>

definition add_heading :: "pystr \<Rightarrow> int \<Rightarrow> py_error + para" where
  "add_heading text level =
     (if level < 0 \<or> 9 < level then Inl ValueError
      else Inr \<lparr>style_name = (if level = 0 then str ''Title''
                               else str ''Heading '' @ digits_in 10 (nat level)),
                 runs = (if text = [] then [] else [add_run text])\<rparr>)"

definition process_block_into_para :: "pystr \<Rightarrow> py_error + para" where
  "process_block_into_para block =
     (if startswith (str ''#'') block
      then (let level = int (length block) - int (length (lstrip_char 35 block));
                heading_text = strip (lstrip_char 35 block)
            in add_heading heading_text level)
      else if startswith [8226, 32] block
      then Inr \<lparr>style_name = str ''List Bullet'', runs = color_runs (strip (drop 2 block))\<rparr>
      else if startswith (str ''1. '') block
      then Inr \<lparr>style_name = str ''List Number'', runs = color_runs (strip (drop 3 block))\<rparr>
      else Inr \<lparr>style_name = str ''Normal'', runs = color_runs block\<rparr>)"

text \<open>
  \<open>re.split(r"\n\s*\n", text)\<close>.  After a newline, \<open>blank_sep\<close> gives how many more
  characters the separator takes: the greedy \<open>\s*\<close> runs through the whitespace and
  backs up to its last newline.
\<close>

definition blank_sep :: "pystr \<Rightarrow> nat option" where
  "blank_sep rest =
     (let ws = takeWhile py_isspace rest
      in if 10 \<in> set ws
         then Some (length ws - length (takeWhile (\<lambda>c. c \<noteq> 10) (rev ws)))
         else None)"

function split_blocks_aux :: "pystr \<Rightarrow> pystr \<Rightarrow> pystr list" where
  "split_blocks_aux cur [] = [cur]"
| "split_blocks_aux cur (c # rest) =
     (if c = 10
      then (case blank_sep rest of
              Some k \<Rightarrow> cur # split_blocks_aux [] (drop k rest)
            | None \<Rightarrow> split_blocks_aux (cur @ [c]) rest)
      else split_blocks_aux (cur @ [c]) rest)"
  by pat_completeness auto
termination
  by (relation "measure (\<lambda>(cur, t). length t)") auto

definition split_blocks :: "pystr \<Rightarrow> pystr list" where
  "split_blocks text = split_blocks_aux [] text"

fun process_blocks :: "pystr list \<Rightarrow> py_error + para list" where
  "process_blocks [] = Inr []"
| "process_blocks (block0 # blocks) =
     (let block = strip block0
      in if block = [] then process_blocks blocks
         else (case process_block_into_para block of
                 Inl e \<Rightarrow> Inl e
               | Inr p \<Rightarrow>
                   (case process_blocks blocks of
                      Inl e \<Rightarrow> Inl e
                    | Inr ps \<Rightarrow> Inr (p # ps))))"

definition save_docx_text :: "pystr \<Rightarrow> py_error + document" where
  "save_docx_text text =
     (case process_blocks (split_blocks (strip text)) of
        Inl e \<Rightarrow> Inl e
      | Inr ps \<Rightarrow> Inr \<lparr>paragraphs = ps, tables = []\<rparr>)"


section \<open>HTML renderer (utils.convert_custom_text_to_html)\<close>

text \<open>
  \<open>re.sub\<close> of every opening colour tag \<open><#([A-Fa-f0-9]{6})>\<close> by a \<open>span\<close> with
  that colour, then of every closing tag \<open></#([A-Fa-f0-9]{6})>\<close> by \<open></span>\<close>: each
  scans the text from the left and replaces the matches it meets.
\<close>

definition span_open :: "pystr \<Rightarrow> pystr" where
  "span_open hx = str ''<span style='' @ [34] @ str ''color:#'' @ hx @ str '';'' @ [34] @ str ''>''"

function sub_open_tags :: "pystr \<Rightarrow> pystr" where
  "sub_open_tags [] = []"
| "sub_open_tags (c # cs) =
     (case open_tag_here (c # cs) of
        Some hx \<Rightarrow> span_open hx @ sub_open_tags (drop 8 cs)
      | None \<Rightarrow> c # sub_open_tags cs)"
  by pat_completeness auto
termination
  by (relation "measure length") auto

definition close_tag_here :: "pystr \<Rightarrow> bool" where
  "close_tag_here t =
     (10 \<le> length t \<and> take 3 t = str ''</#'' \<and> (\<forall>c \<in> set (take 6 (drop 3 t)). is_hex c)
      \<and> t ! 9 = 62)"

function sub_close_tags :: "pystr \<Rightarrow> pystr" where
  "sub_close_tags [] = []"
| "sub_close_tags (c # cs) =
     (if close_tag_here (c # cs) then str ''</span>'' @ sub_close_tags (drop 9 cs)
      else c # sub_close_tags cs)"
  by pat_completeness auto
termination
  by (relation "measure length") auto

text \<open>\<open>html.replace("\\n\\n", "</p><p>").replace("\\n", "<br>")\<close>.\<close>

fun replace_blank_lines :: "pystr \<Rightarrow> pystr" where
  "replace_blank_lines (x # y # zs) =
     (if x = 10 \<and> y = 10 then str ''</p><p>'' @ replace_blank_lines zs
      else x # replace_blank_lines (y # zs))"
| "replace_blank_lines zs = zs"

definition replace_newlines :: "pystr \<Rightarrow> pystr" where
  "replace_newlines s = concat (map (\<lambda>c. if c = 10 then str ''<br>'' else [c]) s)"

text \<open>The two parts of the document template around the converted text.\<close>

definition html_head :: pystr where
  "html_head =
     [10] @ str ''    <html>'' @ [10] @ str ''    <head>'' @ [10] @
     str ''        <meta charset='' @ [34] @ str ''utf-8'' @ [34] @ str ''>'' @ [10] @
     str ''        <style>'' @ [10] @ str ''            body {'' @ [10] @
     str ''                font-family: Arial, sans-serif;'' @ [10] @
     str ''                line-height: 1.5;'' @ [10] @
     str ''                font-size: 12pt;'' @ [10] @
     str ''                margin: 20px;'' @ [10] @ str ''            }'' @ [10] @
     str ''            b { font-weight: bold; }'' @ [10] @
     str ''            i { font-style: italic; }'' @ [10] @
     str ''            p { margin-bottom: 10px; }'' @ [10] @ str ''        </style>'' @
     [10] @ str ''    </head>'' @ [10] @ str ''    <body><p>''"

definition html_tail :: pystr where
  "html_tail =
     str ''</p></body>'' @ [10] @ str ''    </html>'' @ [10] @ str ''    ''"

text \<open>The variable \<open>html\<close> after the two substitutions and the two replacements.\<close>

definition html_body :: "pystr \<Rightarrow> pystr" where
  "html_body text = replace_newlines (replace_blank_lines (sub_close_tags (sub_open_tags text)))"

definition convert_custom_text_to_html :: "pystr \<Rightarrow> pystr" where
  "convert_custom_text_to_html text = html_head @ html_body text @ html_tail"

text \<open>Six hexadecimal digits: the value of a colour tag.\<close>

definition good_hex :: "pystr \<Rightarrow> bool" where
  "good_hex h = (length h = 6 \<and> (\<forall>c \<in> set h. is_hex c))"

text \<open>No opening and no closing colour tag starts anywhere in the text.\<close>

fun no_color_tag :: "pystr \<Rightarrow> bool" where
  "no_color_tag [] = True"
| "no_color_tag (c # cs) =
     (open_tag_here (c # cs) = None \<and> \<not> close_tag_here (c # cs) \<and> no_color_tag cs)"

section \<open>LLM agent (ai_agent.py)\<close>

text \<open>
  The process-wide cache is the dictionary \<open>CACHE\<close>; the state threaded through the
  agent holds it together with the number of calls made to the chat-completion API
  and the number of writes of the cache file.  The outside world is an environment:
  \<open>hash_text\<close> (the SHA-256 digest), \<open>dumps\<close> (the canonical serialisation of the key
  data), the prompt builders, \<open>json_loads\<close>, the API itself (what its \<open>n\<close>-th
  invocation answers: an exception or \<open>message.content\<close>, which can be \<open>None\<close>) and
  whether the \<open>n\<close>-th write of the cache file succeeds.
\<close>

type_synonym content = "pystr option"

record request =
  req_model :: pystr
  req_messages :: "(pystr \<times> pystr) list"
  req_max_tokens :: int
  req_temperature :: rat
  req_response_format :: "pystr option"

datatype parsed_json = JObject pystr | JOther | JInvalid

record env =
  hash_text :: "pystr \<Rightarrow> pystr"
  dumps :: "request \<Rightarrow> pystr"
  api :: "nat \<Rightarrow> request \<Rightarrow> py_error + content"
  write_ok :: "nat \<Rightarrow> bool"
  json_loads :: "pystr \<Rightarrow> parsed_json"
  analysis_messages :: "pystr \<Rightarrow> (pystr \<times> pystr) list"
  correction_messages :: "pystr \<Rightarrow> (pystr \<times> pystr) list"

record world =
  CACHE :: "pystr \<Rightarrow> content option"
  api_calls :: nat
  writes :: nat

definition save_cache :: "env \<Rightarrow> world \<Rightarrow> (py_error + unit) \<times> world" where
  "save_cache ev w =
     (if write_ok ev (writes w) then Inr () else Inl OSError, w\<lparr>writes := Suc (writes w)\<rparr>)"

text \<open>\<open>LLMAgent._call_openai_chat\<close>: the cached wrapper of the API call.\<close>

definition call_openai_chat :: "env \<Rightarrow> request \<Rightarrow> world \<Rightarrow> (py_error + content) \<times> world" where
  "call_openai_chat ev rq w =
     (let cache_key = hash_text ev (dumps ev rq)
      in (case CACHE w cache_key of
            Some v \<Rightarrow> (Inr v, w)
          | None \<Rightarrow>
              (case api ev (api_calls w) rq of
                 Inl e \<Rightarrow> (Inl e, w\<lparr>api_calls := Suc (api_calls w)\<rparr>)
               | Inr content \<Rightarrow>
                   (case save_cache ev (w\<lparr>api_calls := Suc (api_calls w),
                                            CACHE := (CACHE w)(cache_key \<mapsto> content)\<rparr>) of
                      (Inl e, w') \<Rightarrow> (Inl e, w')
                    | (Inr u, w') \<Rightarrow> (Inr content, w')))))"

text \<open>
  \<open>LLMAgent.analyze\<close>.  The report of a chunk is the parsed object, the raw output
  when it is not JSON, or the error-shaped object built in the \<open>except\<close> branch; each
  carries its \<open>_chunk_index\<close>.  Setting the index on a parsed value that is not an
  object raises \<open>TypeError\<close>, outside any handler.
\<close>

datatype report =
    ParsedReport pystr nat
  | RawOutput content nat
  | ErrorReport py_error nat

definition analysis_request :: "env \<Rightarrow> pystr \<Rightarrow> pystr \<Rightarrow> request" where
  "analysis_request ev model chunk =
     \<lparr>req_model = model, req_messages = analysis_messages ev chunk,
      req_max_tokens = min CHUNK_SIZE (int (length chunk) div 3 + 1500),
      req_temperature = 0, req_response_format = Some (str ''json_object'')\<rparr>"

text \<open>The \<open>if cache_key in CACHE ... else try ... except\<close> of one chunk.\<close>

definition analyze_out :: "env \<Rightarrow> pystr \<Rightarrow> pystr \<Rightarrow> world \<Rightarrow> (py_error + content) \<times> world" where
  "analyze_out ev model chunk w =
     (let cache_key = hash_text ev (chunk @ str ''_analysis'')
      in (case CACHE w cache_key of
            Some v \<Rightarrow> (Inr v, w)
          | None \<Rightarrow>
              (case call_openai_chat ev (analysis_request ev model chunk) w of
                 (Inl e, w1) \<Rightarrow> (Inl e, w1)
               | (Inr out, w1) \<Rightarrow>
                   (case save_cache ev (w1\<lparr>CACHE := (CACHE w1)(cache_key \<mapsto> out)\<rparr>) of
                      (Inl e, w2) \<Rightarrow> (Inl e, w2)
                    | (Inr u, w2) \<Rightarrow> (Inr out, w2)))))"

definition analyze_chunk :: "env \<Rightarrow> pystr \<Rightarrow> nat \<Rightarrow> pystr \<Rightarrow> world \<Rightarrow> (py_error + report) \<times> world" where
  "analyze_chunk ev model idx chunk w =
     (case analyze_out ev model chunk w of
        (Inl e, w') \<Rightarrow> (Inr (ErrorReport e idx), w')
      | (Inr None, w') \<Rightarrow> (Inr (RawOutput None idx), w')
      | (Inr (Some out), w') \<Rightarrow>
          (case json_loads ev out of
             JInvalid \<Rightarrow> (Inr (RawOutput (Some out) idx), w')
           | JObject d \<Rightarrow> (Inr (ParsedReport d idx), w')
           | JOther \<Rightarrow> (Inl TypeError, w')))"

fun analyze_chunks ::
  "env \<Rightarrow> pystr \<Rightarrow> nat \<Rightarrow> pystr list \<Rightarrow> world \<Rightarrow> (py_error + report list) \<times> world" where
  "analyze_chunks ev model idx [] w = (Inr [], w)"
| "analyze_chunks ev model idx (chunk # chunks) w =
     (case analyze_chunk ev model idx chunk w of
        (Inl e, w') \<Rightarrow> (Inl e, w')
      | (Inr r, w') \<Rightarrow>
          (case analyze_chunks ev model (Suc idx) chunks w' of
             (Inl e, w'') \<Rightarrow> (Inl e, w'')
           | (Inr rs, w'') \<Rightarrow> (Inr (r # rs), w'')))"

definition analyze :: "env \<Rightarrow> pystr \<Rightarrow> pystr \<Rightarrow> world \<Rightarrow> ((py_error + report list) \<times> world) option" where
  "analyze ev model text w =
     map_option (\<lambda>chunks. analyze_chunks ev model 0 chunks w) (chunk_text text CHUNK_SIZE)"

text \<open>
  \<open>LLMAgent.correct_whole\<close>.  There is no handler in its loop: an exception of the
  wrapper, of the cache write or of \<open>corrected.strip()\<close> on \<open>None\<close> leaves the function.
\<close>

definition correction_request :: "env \<Rightarrow> pystr \<Rightarrow> pystr \<Rightarrow> request" where
  "correction_request ev model chunk =
     \<lparr>req_model = model, req_messages = correction_messages ev chunk,
      req_max_tokens = min 3500 (int (length chunk) div 3 + 1500),
      req_temperature = 0, req_response_format = None\<rparr>"

definition correct_chunk :: "env \<Rightarrow> pystr \<Rightarrow> pystr \<Rightarrow> world \<Rightarrow> (py_error + pystr) \<times> world" where
  "correct_chunk ev model chunk w =
     (let cache_key = hash_text ev (chunk @ str ''_correction'');
          strip_part = (\<lambda>corrected w'.
             (case corrected of
                None \<Rightarrow> (Inl AttributeError, w')
              | Some s \<Rightarrow> (Inr (strip s), w')))
      in (case CACHE w cache_key of
            Some corrected \<Rightarrow> strip_part corrected w
          | None \<Rightarrow>
              (case call_openai_chat ev (correction_request ev model chunk) w of
                 (Inl e, w1) \<Rightarrow> (Inl e, w1)
               | (Inr corrected, w1) \<Rightarrow>
                   (case save_cache ev (w1\<lparr>CACHE := (CACHE w1)(cache_key \<mapsto> corrected)\<rparr>) of
                      (Inl e, w2) \<Rightarrow> (Inl e, w2)
                    | (Inr u, w2) \<Rightarrow> strip_part corrected w2))))"

fun correct_chunks ::
  "env \<Rightarrow> pystr \<Rightarrow> pystr list \<Rightarrow> world \<Rightarrow> (py_error + pystr list) \<times> world" where
  "correct_chunks ev model [] w = (Inr [], w)"
| "correct_chunks ev model (chunk # chunks) w =
     (case correct_chunk ev model chunk w of
        (Inl e, w') \<Rightarrow> (Inl e, w')
      | (Inr part, w') \<Rightarrow>
          (case correct_chunks ev model chunks w' of
             (Inl e, w'') \<Rightarrow> (Inl e, w'')
           | (Inr parts, w'') \<Rightarrow> (Inr (part # parts), w'')))"

definition correct_whole :: "env \<Rightarrow> pystr \<Rightarrow> pystr \<Rightarrow> world \<Rightarrow> ((py_error + pystr) \<times> world) option" where
  "correct_whole ev model text w =
     map_option
       (\<lambda>chunks. (case correct_chunks ev model chunks w of
                    (Inl e, w') \<Rightarrow> (Inl e, w')
                  | (Inr parts, w') \<Rightarrow> (Inr (join [10, 10] parts), w')))
       (chunk_text text CHUNK_SIZE)"


section \<open>Documents that survive the round trip\<close>

text \<open>
  The documents for which reconstruction undoes extraction.  A run is simple when
  its text is not empty and has no marker character (\<open>*\<close>, \<open>_\<close>, \<open><\<close>) and no newline,
  when it carries at most one of bold, italic and underline, and when its colour, if
  any, is one the extractor writes as a hexadecimal tag (a valid colour outside the
  named buckets).
\<close>

definition clean_text :: "pystr \<Rightarrow> bool" where
  "clean_text t = (t \<noteq> [] \<and> (\<forall>c \<in> set t. c \<noteq> 42 \<and> c \<noteq> 95 \<and> c \<noteq> 60 \<and> c \<noteq> 10))"

definition is_plain :: "run \<Rightarrow> bool" where
  "is_plain r = (\<not> bold r \<and> \<not> italic r \<and> \<not> underline r)"

definition single_style :: "run \<Rightarrow> bool" where
  "single_style r =
     (\<not> (bold r \<and> italic r) \<and> \<not> (bold r \<and> underline r) \<and> \<not> (italic r \<and> underline r))"

definition hex_tagged :: "rgbcolor \<Rightarrow> bool" where
  "hex_tagged c =
     (case c of
        RGB r g b \<Rightarrow>
          0 \<le> r \<and> r \<le> 255 \<and> 0 \<le> g \<and> g \<le> 255 \<and> 0 \<le> b \<and> b \<le> 255
          \<and> \<not> (r > 200 \<and> g < 80 \<and> b < 80) \<and> \<not> (b > 200 \<and> r < 80 \<and> g < 80)
          \<and> \<not> (g > 150 \<and> r < 100) \<and> \<not> (r > 200 \<and> g > 200 \<and> b < 100)
          \<and> \<not> (r > 100 \<and> g > 100 \<and> b > 100))"

definition simple_run :: "run \<Rightarrow> bool" where
  "simple_run r =
     (clean_text (run_text r) \<and> single_style r
      \<and> (case color r of None \<Rightarrow> True | Some c \<Rightarrow> hex_tagged c))"

text \<open>
  Two neighbouring runs clash when their markup runs together: two plain runs, or an
  italic run before an italic or a bold one.  Only uncoloured neighbours can clash,
  a colour tag keeps its run apart.
\<close>

definition clash_styles :: "run \<Rightarrow> run \<Rightarrow> bool" where
  "clash_styles r1 r2 = ((is_plain r1 \<and> is_plain r2) \<or> (italic r1 \<and> (italic r2 \<or> bold r2)))"

definition clash :: "run \<Rightarrow> run \<Rightarrow> bool" where
  "clash r1 r2 = (color r1 = None \<and> color r2 = None \<and> clash_styles r1 r2)"

definition no_clash :: "run list \<Rightarrow> bool" where
  "no_clash rs = successively (\<lambda>r1 r2. \<not> clash r1 r2) rs"

text \<open>
  The markup of the runs of a paragraph, and the body condition shared by plain and
  list paragraphs: simple runs that do not clash, visible text, and markup that
  neither starts nor ends with whitespace.
\<close>

definition runs_markup :: "run list \<Rightarrow> pystr" where
  "runs_markup rs = concat (map run_markup rs)"

definition simple_body :: "run list \<Rightarrow> bool" where
  "simple_body rs =
     (rs \<noteq> [] \<and> list_all simple_run rs \<and> no_clash rs
      \<and> strip (concat (map run_text rs)) \<noteq> []
      \<and> \<not> py_isspace (hd (runs_markup rs)) \<and> \<not> py_isspace (last (runs_markup rs)))"

text \<open>
  A simple paragraph is a plain paragraph whose markup does not look like a heading
  or a list item, a bulleted or numbered list item, or a heading of level 1 to 9
  with one unstyled run whose text has no outer whitespace and no newline.
\<close>

definition simple_heading_text :: "pystr \<Rightarrow> bool" where
  "simple_heading_text t =
     (t \<noteq> [] \<and> \<not> py_isspace (hd t) \<and> \<not> py_isspace (last t) \<and> 10 \<notin> set t)"

definition simple_para :: "para \<Rightarrow> bool" where
  "simple_para p =
     ((style_name p = str ''Normal'' \<and> simple_body (runs p)
         \<and> \<not> startswith (str ''#'') (runs_markup (runs p))
         \<and> \<not> startswith [8226, 32] (runs_markup (runs p))
         \<and> \<not> startswith (str ''1. '') (runs_markup (runs p)))
      \<or> ((style_name p = str ''List Bullet'' \<or> style_name p = str ''List Number'')
          \<and> simple_body (runs p))
      \<or> (style_name p \<in> set (map (\<lambda>n. str ''Heading '' @ digits_in 10 n) [1..<10])
          \<and> (case runs p of
                 [r] \<Rightarrow> r = add_run (run_text r) \<and> simple_heading_text (run_text r)
               | _ \<Rightarrow> False)))"

text \<open>The markup of a run without its colour tag, and a run recoloured.\<close>

definition inline_markup :: "run \<Rightarrow> pystr" where
  "inline_markup r =
     (if bold r then str ''**'' @ run_text r @ str ''**''
      else if italic r then str ''*'' @ run_text r @ str ''*''
      else if underline r then str ''__'' @ run_text r @ str ''__''
      else run_text r)"

definition shift_by :: "nat \<Rightarrow> re_match \<Rightarrow> re_match" where
  "shift_by n m = m\<lparr>m_start := m_start m + n, m_end := m_end m + n\<rparr>"

definition shift_color_by :: "nat \<Rightarrow> color_match \<Rightarrow> color_match" where
  "shift_color_by n m = m\<lparr>c_start := c_start m + n, c_end := c_end m + n\<rparr>"

text \<open>The six digits the extractor prints for a colour.\<close>

definition hex_of :: "rgbcolor \<Rightarrow> pystr" where
  "hex_of c = (case c of RGB r g b \<Rightarrow> fmt_02X r @ fmt_02X g @ fmt_02X b)"

text \<open>
  A block of markup as the extractor writes it: not empty, no whitespace at its
  ends, no newline inside.
\<close>

definition block_ok :: "pystr \<Rightarrow> bool" where
  "block_ok b = (b \<noteq> [] \<and> \<not> py_isspace (hd b) \<and> \<not> py_isspace (last b) \<and> 10 \<notin> set b)"


section \<open>General facts about the string operations\<close>

lemma dropWhile_hd: "xs \<noteq> [] \<Longrightarrow> \<not> P (hd xs) \<Longrightarrow> dropWhile P xs = xs"
  by (cases xs) auto

lemma strip_edges:
  assumes "s \<noteq> []" "\<not> py_isspace (hd s)" "\<not> py_isspace (last s)"
  shows "strip s = s"
proof -
  have a: "dropWhile py_isspace s = s" using assms(1,2) by (rule dropWhile_hd)
  have "rev s \<noteq> []" "\<not> py_isspace (hd (rev s))" using assms(1,3) by (simp_all add: hd_rev)
  then have "dropWhile py_isspace (rev s) = rev s" by (rule dropWhile_hd)
  with a show ?thesis by (simp add: strip_def lstrip_def rstrip_def)
qed

lemma strip_trailing:
  assumes "s \<noteq> []" "\<not> py_isspace (hd s)" "\<not> py_isspace (last s)"
    and "\<forall>c \<in> set w. py_isspace c"
  shows "strip (s @ w) = s"
proof -
  have "dropWhile py_isspace (s @ w) = s @ w" using assms(1,2) by (cases s) auto
  moreover have "dropWhile py_isspace (rev w @ rev s) = dropWhile py_isspace (rev s)"
    using assms(4) by (simp add: dropWhile_append)
  moreover have "dropWhile py_isspace (rev s) = rev s"
    using assms(1,3) by (intro dropWhile_hd) (simp_all add: hd_rev)
  ultimately show ?thesis by (simp add: strip_def lstrip_def rstrip_def)
qed

lemma startswith_contains: "startswith s t \<Longrightarrow> contains s t"
  by (cases t) (auto simp: startswith_def)

lemma contains_mid: "contains s (a @ s @ b)"
proof (induction a)
  case Nil
  have "startswith s (s @ b)" by (simp add: startswith_def)
  then show ?case by (simp add: startswith_contains)
next
  case (Cons x a)
  then show ?case by simp
qed

lemma contains_decomp: "contains s t \<Longrightarrow> \<exists>a b. t = a @ s @ b"
proof (induction t)
  case Nil
  then show ?case by simp
next
  case (Cons x t)
  show ?case
  proof (cases "startswith s (x # t)")
    case True
    then have "x # t = [] @ s @ drop (length s) (x # t)"
      by (metis append_Nil append_take_drop_id startswith_def)
    then show ?thesis by blast
  next
    case False
    with Cons obtain a b where "t = a @ s @ b" by auto
    then have "x # t = (x # a) @ s @ b" by simp
    then show ?thesis by blast
  qed
qed

lemma dropWhile_keep:
  assumes "s \<noteq> []" "\<not> P (hd s)"
  shows "\<exists>a'. dropWhile P (a @ s @ b) = a' @ s @ b"
proof (cases "\<forall>x \<in> set a. P x")
  case True
  then have "dropWhile P (a @ s @ b) = dropWhile P (s @ b)" by (simp add: dropWhile_append)
  also have "\<dots> = s @ b" using assms by (cases s) auto
  finally show ?thesis by (metis append_Nil)
next
  case False
  then have "dropWhile P (a @ s @ b) = dropWhile P a @ s @ b" by (auto simp: dropWhile_append)
  then show ?thesis by blast
qed

lemma contains_strip:
  assumes "contains s t" "s \<noteq> []" "\<not> py_isspace (hd s)" "\<not> py_isspace (last s)"
  shows "contains s (strip t)"
proof -
  from contains_decomp [OF assms(1)] obtain a b where t: "t = a @ s @ b" by blast
  from dropWhile_keep [of s py_isspace a b] assms(2,3) obtain a' where
    l: "lstrip t = a' @ s @ b" unfolding t lstrip_def by blast
  have rs: "rev s \<noteq> []" "\<not> py_isspace (hd (rev s))" using assms(2,4) by (simp_all add: hd_rev)
  from dropWhile_keep [of "rev s" py_isspace "rev b" "rev a'"] rs obtain c where
    "dropWhile py_isspace (rev b @ rev s @ rev a') = c @ rev s @ rev a'" by blast
  then have "rstrip (a' @ s @ b) = a' @ s @ rev c" by (simp add: rstrip_def)
  then show ?thesis unfolding strip_def l by (simp add: contains_mid)
qed

lemma map_filter_mem:
  assumes "x \<in> set xs" "f x = Some y"
  shows "\<exists>p q. List.map_filter f xs = p @ y # q"
proof -
  from assms(1) obtain l r where "xs = l @ x # r" by (meson split_list)
  then have "List.map_filter f xs = List.map_filter f l @ y # List.map_filter f r"
    using assms(2) by (simp add: List.map_filter_def)
  then show ?thesis by blast
qed

section \<open>Properties of the chunker\<close>

lemma py_slice_nonneg:
  "0 \<le> i \<Longrightarrow> i \<le> j \<Longrightarrow> j \<le> int (length xs) \<Longrightarrow>
   py_slice xs i j = drop (nat i) (take (nat j) xs)"
  by (simp add: py_slice_def py_index_def min_def)

lemma drop_take_append_drop:
  "a \<le> b \<Longrightarrow> drop a (take b xs) @ drop b xs = drop a xs"
proof -
  assume ab: "a \<le> b"
  have "drop a xs = drop a (take b xs @ drop b xs)" by simp
  also have "\<dots> = drop a (take b xs) @ drop (a - length (take b xs)) (drop b xs)"
    by (rule drop_append)
  also have "drop (a - length (take b xs)) (drop b xs) = drop b xs"
  proof (cases "b \<le> length xs")
    case True
    with ab show ?thesis by simp
  next
    case False
    then show ?thesis by simp
  qed
  finally show ?thesis by simp
qed

lemma chunk_count_step_full:
  fixes S :: int
  assumes "1 \<le> S"
  shows "(n - (s + S) + S - 1) div S + 1 = (n - s + S - 1) div S"
proof -
  have "(n - s + S - 1) div S = ((n - (s + S) + S - 1) + 1 * S) div S"
    by (simp add: algebra_simps)
  also have "\<dots> = (n - (s + S) + S - 1) div S + 1"
    using assms by (subst div_mult_self1) auto
  finally show ?thesis by simp
qed

lemma chunk_count_step_last:
  fixes S :: int
  assumes "1 \<le> S" "s < n" "n \<le> s + S"
  shows "(n - s + S - 1) div S = 1"
proof -
  have "(n - s + S - 1) div S = ((n - s - 1) + 1 * S) div S"
    by (simp add: algebra_simps)
  also have "\<dots> = (n - s - 1) div S + 1"
    using assms by (subst div_mult_self1) auto
  also have "(n - s - 1) div S = 0"
    using assms by (intro div_pos_pos_trivial) auto
  finally show ?thesis by simp
qed

lemma chunk_loop_spec:
  assumes S: "1 \<le> S"
  shows "0 \<le> start \<Longrightarrow> start \<le> int (length T) \<Longrightarrow>
    \<exists>cs. chunk_loop T S start acc = Some (acc @ cs)
        \<and> concat cs = drop (nat start) T
        \<and> (\<forall>c \<in> set cs. c \<noteq> [] \<and> int (length c) \<le> S)
        \<and> int (length cs) = (int (length T) - start + S - 1) div S"
proof (induction "nat (int (length T) - start)" arbitrary: start acc rule: less_induct)
  case less
  show ?case
  proof (cases "start < int (length T)")
    case False
    with less.prems have eq: "start = int (length T)" by simp
    have "chunk_loop T S start acc = Some acc"
      using False by (subst chunk_loop.simps) simp
    moreover have "(S - 1) div S = 0"
      using S by (intro div_pos_pos_trivial) auto
    ultimately show ?thesis using eq by simp
  next
    case True
    define e where "e = min (start + S) (int (length T))"
    define c where "c = py_slice T start e"
    have e_bounds: "start < e" "e \<le> int (length T)" "0 \<le> e"
      using True S less.prems by (auto simp: e_def)
    have unfold: "chunk_loop T S start acc = chunk_loop T S e (acc @ [c])"
      using True by (subst chunk_loop.simps) (simp add: e_def c_def Let_def chunk_end_def)
    have c_eq: "c = drop (nat start) (take (nat e) T)"
      unfolding c_def using less.prems e_bounds by (intro py_slice_nonneg) auto
    have c_len: "int (length c) = e - start"
      using e_bounds less.prems by (simp add: c_eq)
    have "nat (int (length T) - e) < nat (int (length T) - start)"
      using e_bounds True by simp
    from less.hyps [OF this e_bounds(3) e_bounds(2), of "acc @ [c]"]
    obtain cs where cs:
      "chunk_loop T S e ((acc @ [c]) @ cs) = chunk_loop T S e ((acc @ [c]) @ cs)"
      "chunk_loop T S e (acc @ [c]) = Some ((acc @ [c]) @ cs)"
      "concat cs = drop (nat e) T"
      "\<forall>c \<in> set cs. c \<noteq> [] \<and> int (length c) \<le> S"
      "int (length cs) = (int (length T) - e + S - 1) div S"
      by auto
    have r1: "chunk_loop T S start acc = Some (acc @ (c # cs))"
      using unfold cs(2) by simp
    have "nat start \<le> nat e" using e_bounds less.prems by simp
    then have r2: "concat (c # cs) = drop (nat start) T"
      using cs(3) c_eq by (simp add: drop_take_append_drop)
    have c_ok: "c \<noteq> [] \<and> int (length c) \<le> S"
    proof
      show "c \<noteq> []" using c_len e_bounds by auto
      show "int (length c) \<le> S" using c_len by (simp add: e_def)
    qed
    then have r3: "\<forall>c \<in> set (c # cs). c \<noteq> [] \<and> int (length c) \<le> S"
      using cs(4) by simp
    have r4: "int (length (c # cs)) = (int (length T) - start + S - 1) div S"
    proof (cases "start + S \<le> int (length T)")
      case True
      then have "e = start + S" by (simp add: e_def)
      then show ?thesis
        using cs(5) chunk_count_step_full [OF S, of "int (length T)" start] by simp
    next
      case False
      then have e: "e = int (length T)" by (simp add: e_def)
      have "(S - 1) div S = 0"
        using S by (intro div_pos_pos_trivial) auto
      then have "int (length cs) = 0" using cs(5) e by simp
      moreover have "(int (length T) - start + S - 1) div S = 1"
        using False \<open>start < int (length T)\<close> S by (intro chunk_count_step_last) auto
      ultimately show ?thesis by simp
    qed
    from r1 r2 r3 r4 show ?thesis by blast
  qed
qed

lemma ceiling_div_int:
  fixes S :: int
  assumes "1 \<le> S"
  shows "\<lceil>real_of_int n / real_of_int S\<rceil> = (n + S - 1) div S"
proof -
  have "\<lceil>real_of_int n / real_of_int S\<rceil> = - ((- n) div S)"
    by (simp add: ceiling_divide_eq_div)
  also have "- ((- n) div S) = (n + S - 1) div S"
  proof -
    define q r where "q = n div S" and "r = n mod S"
    have m: "0 \<le> r" "r < S" using assms by (auto simp: r_def)
    have "n + S - 1 = (r + S - 1) + q * S"
      by (simp add: q_def r_def algebra_simps)
    then have "(n + S - 1) div S = ((r + S - 1) + q * S) div S"
      by (rule arg_cong)
    also have "\<dots> = (r + S - 1) div S + q"
      using assms by simp
    finally have up: "(n + S - 1) div S = (r + S - 1) div S + q" .
    show ?thesis
    proof (cases "r = 0")
      case True
      then have "(- n) div S = - q"
        using assms by (simp add: zdiv_zminus1_eq_if q_def r_def)
      moreover have "(S - 1) div S = 0" using assms by (intro div_pos_pos_trivial) auto
      ultimately show ?thesis using up True by simp
    next
      case False
      then have "(- n) div S = - q - 1"
        using assms by (simp add: zdiv_zminus1_eq_if q_def r_def)
      moreover have "(r + S - 1) div S = 1"
      proof -
        have "(r + S - 1) div S = ((r - 1) + 1 * S) div S" by (simp add: algebra_simps)
        also have "\<dots> = (r - 1) div S + 1"
          using assms by (subst div_mult_self1) auto
        also have "(r - 1) div S = 0"
          using m False by (intro div_pos_pos_trivial) auto
        finally show ?thesis by simp
      qed
      ultimately show ?thesis using up by simp
    qed
  qed
  finally show ?thesis .
qed

text \<open>
  C2 (chunker correctness): for every text \<open>T\<close> and every size \<open>S > 0\<close>,
  \<open>chunk_text T S\<close> returns a list of chunks whose concatenation is \<open>T\<close>, in which
  no chunk is empty and every chunk has at most \<open>S\<close> characters, and whose length is
  \<open>ceil(len(T)/S)\<close>; the empty text gives zero chunks.
\<close>

theorem chunk_text_correct:
  "0 < S \<Longrightarrow>
   (\<exists>cs. chunk_text T S = Some cs
        \<and> concat cs = T
        \<and> (\<forall>c \<in> set cs. c \<noteq> [] \<and> int (length c) \<le> S)
        \<and> int (length cs) = \<lceil>real (length T) / real_of_int S\<rceil>)
   \<and> chunk_text [] S = Some []"
proof -
  assume "0 < S"
  then have S: "1 \<le> S" by simp
  from chunk_loop_spec [OF S, of 0 T "[]"]
  obtain cs where cs: "chunk_loop T S 0 [] = Some cs" "concat cs = T"
    "\<forall>c \<in> set cs. c \<noteq> [] \<and> int (length c) \<le> S"
    "int (length cs) = (int (length T) - 0 + S - 1) div S"
    by auto
  have "real (length T) = real_of_int (int (length T))" by simp
  then have "\<lceil>real (length T) / real_of_int S\<rceil> = (int (length T) + S - 1) div S"
    using ceiling_div_int [OF S, of "int (length T)"] by simp
  with cs have "\<exists>cs. chunk_text T S = Some cs
        \<and> concat cs = T
        \<and> (\<forall>c \<in> set cs. c \<noteq> [] \<and> int (length c) \<le> S)
        \<and> int (length cs) = \<lceil>real (length T) / real_of_int S\<rceil>"
    by (simp add: chunk_text_def)
  moreover have "chunk_text [] S = Some []"
    unfolding chunk_text_def by (subst chunk_loop.simps) simp
  ultimately show ?thesis by simp
qed

theorem chunk_text_correct_witness:
  "(0::int) < 2 \<and> chunk_text (str ''abcde'') 2 = Some [(str ''ab''), str ''cd'', str ''e'']
   \<and> int (length [(str ''ab''), str ''cd'', str ''e'']) = \<lceil>real (length (str ''abcde'')) / real_of_int 2\<rceil>"
proof -
  have h: "(0::int) < 2" by simp
  have ev: "chunk_text (str ''abcde'') 2 = Some [(str ''ab''), str ''cd'', str ''e'']"
    unfolding chunk_text_def
    by (simp add: chunk_loop.simps chunk_end_def py_slice_def py_index_def Let_def str_def)
  show ?thesis using h ev chunk_text_correct [OF h, of "(str ''abcde'')"] by auto
qed

lemma chunk_loop_diverges:
  assumes S: "S \<le> 0" and lt: "start < int (length T)"
  shows "chunk_loop T S start acc = None"
proof (rule ccontr)
  assume "chunk_loop T S start acc \<noteq> None"
  then obtain y where y: "chunk_loop T S start acc = Some y" by auto
  have step: "sz \<le> 0 \<longrightarrow> \<not> st < int (length t)"
    if ih: "\<And>t' sz' st' ch' y'. f t' sz' st' ch' = Some y' \<Longrightarrow> sz' \<le> 0 \<longrightarrow> \<not> st' < int (length t')"
    and body: "(if st < int (length t)
         then let e = chunk_end t sz st in f t sz e (ch @ [py_slice t st e])
         else Some ch) = Some r"
    for f t sz st ch r
  proof (intro impI notI)
    assume neg: "sz \<le> 0" and here: "st < int (length t)"
    define e where "e = chunk_end t sz st"
    from body here have "f t sz e (ch @ [py_slice t st e]) = Some r"
      by (simp add: e_def Let_def)
    from ih [OF this] neg have "\<not> e < int (length t)" by simp
    moreover have "e \<le> st" using neg by (simp add: e_def chunk_end_def min_def)
    ultimately show False using here by simp
  qed
  have "S \<le> 0 \<longrightarrow> \<not> start < int (length T)"
    by (rule chunk_loop.raw_induct
          [where P = "\<lambda>t sz st ch y. sz \<le> 0 \<longrightarrow> \<not> st < int (length t)", OF step y])
  with S lt show False by simp
qed

text \<open>
  C10 (chunker termination precondition): \<open>chunk_text\<close> returns for every text
  whenever \<open>chunk_size \<ge> 1\<close>, the start offset strictly increasing on each
  iteration; for \<open>chunk_size \<le> 0\<close> and a non-empty text the offset never advances
  and the loop never returns.  The function has no guard against such sizes.
\<close>

theorem chunk_text_total_iff:
  "(1 \<le> S \<longrightarrow> (\<exists>cs. chunk_text T S = Some cs)
        \<and> (\<forall>start. start < int (length T) \<longrightarrow> start < chunk_end T S start))
   \<and> (S \<le> 0 \<and> T \<noteq> [] \<longrightarrow> chunk_text T S = None \<and> (\<forall>start. chunk_end T S start \<le> start))"
proof (intro conjI impI allI)
  assume "1 \<le> S"
  then have "0 < S" by simp
  from chunk_text_correct [OF this, of T] show "\<exists>cs. chunk_text T S = Some cs" by blast
next
  fix start assume "1 \<le> S" "start < int (length T)"
  then show "start < chunk_end T S start" by (simp add: chunk_end_def)
next
  assume "S \<le> 0 \<and> T \<noteq> []"
  then show "chunk_text T S = None"
    unfolding chunk_text_def by (intro chunk_loop_diverges) auto
next
  fix start assume "S \<le> 0 \<and> T \<noteq> []"
  then show "chunk_end T S start \<le> start" by (simp add: chunk_end_def min_def)
qed

theorem chunk_text_total_iff_witness:
  "(\<exists>cs. chunk_text (str ''ab'') 1 = Some cs) \<and> chunk_text (str ''ab'') 0 = None \<and> chunk_text (str ''ab'') (-3) = None"
  using chunk_text_total_iff [of 1 "(str ''ab'')"] chunk_text_total_iff [of 0 "(str ''ab'')"]
    chunk_text_total_iff [of "-3" "(str ''ab'')"]
  by (simp add: str_def)

section \<open>Properties of the colour conversion and of the run markup\<close>




text \<open>
  C6 as stated (bold markers outermost, underline markers innermost) fails: a run
  \<open>x\<close> with all three flags is emitted with the underline markers outermost and the
  bold markers innermost.
\<close>

theorem run_markup_order_counterexample:
  "run_markup \<lparr>run_text = str ''x'', bold = True, italic = True, underline = True, color = None\<rparr>
     = str ''__***x***__''
   \<and> run_markup \<lparr>run_text = str ''x'', bold = True, italic = True, underline = True, color = None\<rparr>
     \<noteq> str ''**'' @ str ''*'' @ str ''__'' @ str ''x'' @ str ''__'' @ str ''*'' @ str ''**''"
  by (simp add: run_markup_def get_color_tag_def str_def)

text \<open>
  C6, amended (run wrapping order of the DOCX extractor): for every run with text
  and with bold, italic and underline all set, the markers are wrapped in the order
  bold, italic, underline from the inside out (bold innermost, underline
  outermost), and a colour tag, when one is detected, wraps the whole.
\<close>

theorem run_markup_order:
  "run_text r \<noteq> [] \<Longrightarrow> bold r \<Longrightarrow> italic r \<Longrightarrow> underline r \<Longrightarrow>
   run_markup r =
     (case get_color_tag r of
        None \<Rightarrow> str ''__'' @ str ''*'' @ str ''**'' @ run_text r @ str ''**'' @ str ''*'' @ str ''__''
      | Some tag \<Rightarrow> str ''<'' @ tag @ str ''>''
          @ str ''__'' @ str ''*'' @ str ''**'' @ run_text r @ str ''**'' @ str ''*'' @ str ''__''
          @ str ''</'' @ tag @ str ''>'')"
  by (simp add: run_markup_def Let_def split: option.splits)

theorem run_markup_order_witness:
  "run_markup \<lparr>run_text = str ''x'', bold = True, italic = True, underline = True,
               color = Some (RGB 18 52 86)\<rparr>
   = str ''<#123456>__***x***__</#123456>''"
  using run_markup_order [of "\<lparr>run_text = str ''x'', bold = True, italic = True, underline = True,
               color = Some (RGB 18 52 86)\<rparr>"]
  by (simp add: get_color_tag_def str_def fmt_02X_def digit_char_def)

section \<open>Properties of the PDF extractor\<close>

lemma and_255_mod: "(x::int) AND 255 = x mod 256"
proof -
  have "x AND 255 = take_bit 8 x"
    by (simp add: take_bit_eq_mask mask_eq_exp_minus_1)
  then show ?thesis by (simp add: take_bit_eq_mod)
qed

lemma fmt_02X_byte:
  assumes "0 \<le> n" "n < 256"
  shows "fmt_02X n = [digit_char (nat n div 16), digit_char (nat n mod 16)]"
proof (cases "nat n < 16")
  case True
  then have "digits_in 16 (nat n) = [digit_char (nat n)]" by simp
  with True assms show ?thesis by (simp add: fmt_02X_def Let_def digit_char_def)
next
  case False
  moreover have "nat n div 16 < 16" using assms by auto
  ultimately have "digits_in 16 (nat n) = [digit_char (nat n div 16), digit_char (nat n mod 16)]"
    by (subst digits_in.simps) simp
  with assms show ?thesis by (simp add: fmt_02X_def Let_def)
qed

lemma digit_char_upper_hex: "d < 16 \<Longrightarrow> upper_hex (digit_char d)"
  by (auto simp: upper_hex_def digit_char_def)

lemma fmt_02X_mod_shape:
  "length (fmt_02X (x mod 256)) = 2 \<and> (\<forall>c \<in> set (fmt_02X (x mod 256)). upper_hex c)"
proof -
  have b: "0 \<le> x mod 256" "x mod 256 < 256" by auto
  have "nat (x mod 256) div 16 < 16" using b by auto
  moreover have "nat (x mod 256) mod 16 < 16" by auto
  ultimately show ?thesis
    by (simp add: fmt_02X_byte [OF b] digit_char_upper_hex)
qed

lemma color_hex_eq:
  "color_hex c = 35 # fmt_02X ((c div 65536) mod 256) @ fmt_02X ((c div 256) mod 256)
                    @ fmt_02X (c mod 256)"
  by (simp add: color_hex_def Let_def and_255_mod drop_bit_eq_div)

lemma color_hex_shape:
  "length (color_hex c) = 7 \<and> hd (color_hex c) = 35 \<and> (\<forall>x \<in> set (tl (color_hex c)). upper_hex x)"
  using fmt_02X_mod_shape [of "c div 65536"] fmt_02X_mod_shape [of "c div 256"]
    fmt_02X_mod_shape [of c]
  by (auto simp: color_hex_eq)

lemma font_family_eq: "font_family f = takeWhile (\<lambda>c. c \<noteq> 45) f"
proof (cases "45 \<in> set f")
  case True
  then show ?thesis by (simp add: font_family_def)
next
  case False
  then have h: "takeWhile (\<lambda>c. c \<noteq> 45) f = f"
    by (auto simp: takeWhile_eq_all_conv)
  show ?thesis by (simp only: font_family_def False if_False h)
qed

lemma styled_span_eq:
  "strip (span_text sp) \<noteq> [] \<Longrightarrow>
   styled_span sp =
     Some ((if contains (str ''Italic'') (span_font sp) \<or> contains (str ''Oblique'') (span_font sp)
            then str ''<i>'' else [])
           @ (if contains (str ''Bold'') (span_font sp) then str ''<b>'' else [])
           @ str ''<size='' @ fmt_1f (span_size sp) @ str ''><font=''
           @ takeWhile (\<lambda>c. c \<noteq> 45) (span_font sp) @ str ''><''
           @ color_hex (span_color sp) @ str ''>''
           @ strip (span_text sp)
           @ str ''</'' @ color_hex (span_color sp) @ str ''></font></size>''
           @ (if contains (str ''Bold'') (span_font sp) then str ''</b>'' else [])
           @ (if contains (str ''Italic'') (span_font sp) \<or> contains (str ''Oblique'') (span_font sp)
              then str ''</i>'' else []))"
  by (simp add: styled_span_def Let_def is_bold_def is_italic_def font_family_eq str_def)

lemma styled_span_edges:
  assumes "styled_span sp = Some s"
  shows "s \<noteq> []" "\<not> py_isspace (hd s)" "\<not> py_isspace (last s)"
proof -
  from assms have ne: "strip (span_text sp) \<noteq> []"
    by (auto simp: styled_span_def Let_def split: if_splits)
  from styled_span_eq [OF ne] assms show "s \<noteq> []" by (auto simp: str_def)
  from styled_span_eq [OF ne] assms have "hd s = 60" by (auto simp: str_def)
  then show "\<not> py_isspace (hd s)" by (simp add: py_isspace_def)
  from styled_span_eq [OF ne] assms have "last s = 62" by (auto simp: str_def)
  then show "\<not> py_isspace (last s)" by (simp add: py_isspace_def)
qed

lemma extract_contains_span:
  assumes "Some lines \<in> set (concat pdf)" "sp \<in> set (concat lines)" "styled_span sp = Some s"
  shows "contains s (extract_text_from_pdf pdf)"
proof -
  from map_filter_mem [of sp "concat lines" styled_span s] assms(2,3) obtain p q where
    par: "pdf_paragraph lines = p @ s # q" unfolding pdf_paragraph_def by blast
  then have bt: "pdf_block_text (Some lines) = [concat p @ s @ concat q, [10, 10]]"
    by (simp add: pdf_block_text_def)
  from assms(1) obtain l r where "concat pdf = l @ Some lines # r" by (meson split_list)
  then have "concat (concat (map pdf_block_text (concat pdf)))
      = (concat (concat (map pdf_block_text l)) @ concat p) @ s
        @ (concat q @ [10, 10] @ concat (concat (map pdf_block_text r)))"
    by (simp add: bt)
  then have "contains s (concat (concat (map pdf_block_text (concat pdf))))"
    by (metis contains_mid)
  then show ?thesis
    unfolding extract_text_from_pdf_def using styled_span_edges [OF assms(3)]
    by (rule contains_strip)
qed

lemma extract_single_span:
  assumes "styled_span sp = Some s"
  shows "extract_text_from_pdf [[Some [[sp]]]] = s"
proof -
  have "pdf_block_text (Some [[sp]]) = [s, [10, 10]]"
    using assms by (simp add: pdf_block_text_def pdf_paragraph_def List.map_filter_def)
  then have "extract_text_from_pdf [[Some [[sp]]]] = strip (s @ [10, 10])"
    by (simp add: extract_text_from_pdf_def)
  also have "\<dots> = s"
    using styled_span_edges [OF assms] by (rule strip_trailing) (simp add: py_isspace_def)
  finally show ?thesis .
qed

lemma arial_example:
  "fmt_1f (23 / 2) = str ''11.5''" "color_hex 0xFF0000 = str ''#FF0000''"
  "contains (str ''Bold'') (str ''Arial-BoldItalic'')"
  "contains (str ''Italic'') (str ''Arial-BoldItalic'')"
  "takeWhile (\<lambda>c. c \<noteq> 45) (str ''Arial-BoldItalic'') = str ''Arial''"
proof -
  show "fmt_1f (23 / 2) = str ''11.5''"
    by (simp add: fmt_1f_def round_half_even_def Let_def str_def digit_char_def)
  show "color_hex 0xFF0000 = str ''#FF0000''"
    by (simp add: color_hex_eq fmt_02X_byte digit_char_def str_def)
  show "contains (str ''Bold'') (str ''Arial-BoldItalic'')"
    by (simp add: startswith_def str_def)
  show "contains (str ''Italic'') (str ''Arial-BoldItalic'')"
    by (simp add: startswith_def str_def)
  show "takeWhile (\<lambda>c. c \<noteq> 45) (str ''Arial-BoldItalic'') = str ''Arial''"
    by (simp add: str_def)
qed

text \<open>
  C7 (PDF extractor span emission), the claim as stated is refuted: it puts the size
  tag innermost and the colour tag around the font tag (size inside font inside
  colour inside b inside i).  For the span \<open>Hi\<close> with font \<open>Arial-BoldItalic\<close>, size
  11.5 and colour \<open>0xFF0000\<close> the extractor returns
  \<open><i><b><size=11.5><font=Arial><#FF0000>Hi</#FF0000></font></size></b></i>\<close>: the colour
  tag is the innermost one, directly around the text, and the size tag is the
  outermost of the chain.  The string in the claimed order,
  \<open><i><b><#FF0000><font=Arial><size=11.5>Hi</size></font></#FF0000></b></i>\<close>, is not
  returned, and the text is not directly inside a size tag.
\<close>

theorem pdf_nesting_counterexample:
  "extract_text_from_pdf
     [[Some [[\<lparr>span_text = str ''Hi'', span_font = str ''Arial-BoldItalic'',
               span_size = 23 / 2, span_color = 0xFF0000\<rparr>]]]]
   = str ''<i><b><size=11.5><font=Arial><#FF0000>Hi</#FF0000></font></size></b></i>''
   \<and> extract_text_from_pdf
       [[Some [[\<lparr>span_text = str ''Hi'', span_font = str ''Arial-BoldItalic'',
                 span_size = 23 / 2, span_color = 0xFF0000\<rparr>]]]]
     \<noteq> str ''<i><b><#FF0000><font=Arial><size=11.5>Hi</size></font></#FF0000></b></i>''
   \<and> \<not> contains (str ''<size=11.5>Hi</size>'')
         (extract_text_from_pdf
            [[Some [[\<lparr>span_text = str ''Hi'', span_font = str ''Arial-BoldItalic'',
                      span_size = 23 / 2, span_color = 0xFF0000\<rparr>]]]])"
proof -
  let ?sp = "\<lparr>span_text = str ''Hi'', span_font = str ''Arial-BoldItalic'',
               span_size = 23 / 2, span_color = 0xFF0000\<rparr>"
  have s: "strip (str ''Hi'') = str ''Hi''"
    by (simp add: strip_def lstrip_def rstrip_def py_isspace_def str_def)
  then have ne: "strip (span_text ?sp) \<noteq> []" by (simp add: str_def)
  have "styled_span ?sp
      = Some (str ''<i><b><size=11.5><font=Arial><#FF0000>Hi</#FF0000></font></size></b></i>'')"
    using styled_span_eq [OF ne] by (simp add: arial_example s) (simp add: str_def)
  then have e: "extract_text_from_pdf [[Some [[?sp]]]]
      = str ''<i><b><size=11.5><font=Arial><#FF0000>Hi</#FF0000></font></size></b></i>''"
    by (rule extract_single_span)
  show ?thesis unfolding e by (simp add: str_def startswith_def)
qed

text \<open>
  C7, amended (PDF extractor span emission): every span with visible text, in any
  block of any page, is emitted into the extracted text as the chain
  \<open><size=..><font=..><#RRGGBB>text</#RRGGBB></font></size>\<close> (colour tag innermost,
  then font, then size), wrapped in \<open><b>\<close> iff the font name contains \<open>Bold\<close> and then
  in \<open><i>\<close> (outermost) iff it contains \<open>Italic\<close> or \<open>Oblique\<close>; a document of that one
  span is extracted as exactly this string.  The family is the font name up to its
  first \<open>-\<close>; the colour is \<open>#\<close> and six upper-case hexadecimal digits, two for each of
  the three bytes of the packed integer.  In particular a span with font
  \<open>Arial-BoldItalic\<close>, size 11.5 and colour \<open>0xFF0000\<close> is emitted as
  \<open><i><b><size=11.5><font=Arial><#FF0000>text</#FF0000></font></size></b></i>\<close>.
\<close>

theorem extract_text_from_pdf_span:
  assumes "Some lines \<in> set (concat pdf)" and "sp \<in> set (concat lines)"
    and "strip (span_text sp) \<noteq> []"
  shows
   "let f = span_font sp;
        hx = color_hex (span_color sp);
        b = contains (str ''Bold'') f;
        i = (contains (str ''Italic'') f \<or> contains (str ''Oblique'') f);
        emitted = (if i then str ''<i>'' else []) @ (if b then str ''<b>'' else [])
                  @ str ''<size='' @ fmt_1f (span_size sp) @ str ''><font=''
                  @ takeWhile (\<lambda>c. c \<noteq> 45) f @ str ''><'' @ hx @ str ''>''
                  @ strip (span_text sp)
                  @ str ''</'' @ hx @ str ''></font></size>''
                  @ (if b then str ''</b>'' else []) @ (if i then str ''</i>'' else [])
    in contains emitted (extract_text_from_pdf pdf)
       \<and> extract_text_from_pdf [[Some [[sp]]]] = emitted
       \<and> hx = 35 # fmt_02X ((span_color sp div 65536) mod 256)
                 @ fmt_02X ((span_color sp div 256) mod 256) @ fmt_02X (span_color sp mod 256)
       \<and> length hx = 7
       \<and> (\<forall>x \<in> set (tl hx). (48 \<le> x \<and> x \<le> 57) \<or> (65 \<le> x \<and> x \<le> 70))
       \<and> (f = str ''Arial-BoldItalic'' \<and> span_size sp = 23 / 2 \<and> span_color sp = 0xFF0000
            \<longrightarrow> emitted = str ''<i><b><size=11.5><font=Arial><#FF0000>'' @ strip (span_text sp)
                            @ str ''</#FF0000></font></size></b></i>'')"
proof -
  note eq = styled_span_eq [OF assms(3)]
  note c = extract_contains_span [OF assms(1,2) eq]
  note o = extract_single_span [OF eq]
  have h1: "color_hex (span_color sp)
        = 35 # fmt_02X ((span_color sp div 65536) mod 256)
             @ fmt_02X ((span_color sp div 256) mod 256) @ fmt_02X (span_color sp mod 256)"
    by (rule color_hex_eq)
  have h2: "length (color_hex (span_color sp)) = 7"
    using color_hex_shape by blast
  have h3: "\<forall>x \<in> set (tl (color_hex (span_color sp))). (48 \<le> x \<and> x \<le> 57) \<or> (65 \<le> x \<and> x \<le> 70)"
    using color_hex_shape [of "span_color sp"] by (simp add: upper_hex_def)
  have h4: "span_font sp = str ''Arial-BoldItalic'' \<and> span_size sp = 23 / 2
            \<and> span_color sp = 0xFF0000
        \<longrightarrow> (if contains (str ''Italic'') (span_font sp) \<or> contains (str ''Oblique'') (span_font sp)
            then str ''<i>'' else [])
           @ (if contains (str ''Bold'') (span_font sp) then str ''<b>'' else [])
           @ str ''<size='' @ fmt_1f (span_size sp) @ str ''><font=''
           @ takeWhile (\<lambda>c. c \<noteq> 45) (span_font sp) @ str ''><''
           @ color_hex (span_color sp) @ str ''>''
           @ strip (span_text sp)
           @ str ''</'' @ color_hex (span_color sp) @ str ''></font></size>''
           @ (if contains (str ''Bold'') (span_font sp) then str ''</b>'' else [])
           @ (if contains (str ''Italic'') (span_font sp) \<or> contains (str ''Oblique'') (span_font sp)
              then str ''</i>'' else [])
          = str ''<i><b><size=11.5><font=Arial><#FF0000>'' @ strip (span_text sp)
                            @ str ''</#FF0000></font></size></b></i>''"
  proof (intro impI, elim conjE)
    assume e: "span_font sp = str ''Arial-BoldItalic''" "span_size sp = 23 / 2"
      "span_color sp = 0xFF0000"
    show "(if contains (str ''Italic'') (span_font sp) \<or> contains (str ''Oblique'') (span_font sp)
            then str ''<i>'' else [])
           @ (if contains (str ''Bold'') (span_font sp) then str ''<b>'' else [])
           @ str ''<size='' @ fmt_1f (span_size sp) @ str ''><font=''
           @ takeWhile (\<lambda>c. c \<noteq> 45) (span_font sp) @ str ''><''
           @ color_hex (span_color sp) @ str ''>''
           @ strip (span_text sp)
           @ str ''</'' @ color_hex (span_color sp) @ str ''></font></size>''
           @ (if contains (str ''Bold'') (span_font sp) then str ''</b>'' else [])
           @ (if contains (str ''Italic'') (span_font sp) \<or> contains (str ''Oblique'') (span_font sp)
              then str ''</i>'' else [])
          = str ''<i><b><size=11.5><font=Arial><#FF0000>'' @ strip (span_text sp)
                            @ str ''</#FF0000></font></size></b></i>''"
      unfolding e by (simp add: arial_example) (simp add: str_def)
  qed
  show ?thesis
    unfolding Let_def using c o h1 h2 h3 h4 by blast
qed

theorem extract_text_from_pdf_span_witness:
  "contains (str ''<i><b><size=11.5><font=Arial><#FF0000>Hi</#FF0000></font></size></b></i>'')
     (extract_text_from_pdf
        [[None,
          Some [[\<lparr>span_text = str ''A'', span_font = str ''Times'', span_size = 10,
                   span_color = 0\<rparr>,
                 \<lparr>span_text = str '' Hi '', span_font = str ''Arial-BoldItalic'',
                   span_size = 23 / 2, span_color = 0xFF0000\<rparr>]]]])
   \<and> extract_text_from_pdf
        [[Some [[\<lparr>span_text = str '' Hi '', span_font = str ''Arial-BoldItalic'',
                   span_size = 23 / 2, span_color = 0xFF0000\<rparr>]]]]
     = str ''<i><b><size=11.5><font=Arial><#FF0000>Hi</#FF0000></font></size></b></i>''"
proof -
  let ?sp = "\<lparr>span_text = str '' Hi '', span_font = str ''Arial-BoldItalic'',
               span_size = 23 / 2, span_color = 0xFF0000\<rparr>"
  let ?a = "\<lparr>span_text = str ''A'', span_font = str ''Times'', span_size = 10,
              span_color = 0\<rparr>"
  have s: "strip (str '' Hi '') = str ''Hi''"
    by (simp add: strip_def lstrip_def rstrip_def py_isspace_def str_def)
  then have ne: "strip (span_text ?sp) \<noteq> []"
    by (simp add: str_def)
  have m1: "Some [[?a, ?sp]] \<in> set (concat [[None, Some [[?a, ?sp]]]])" by simp
  have m2: "?sp \<in> set (concat [[?a, ?sp]])" by simp
  show ?thesis
    using extract_text_from_pdf_span [OF m1 m2 ne]
    by (simp add: Let_def arial_example s) (simp add: str_def)
qed

section \<open>Properties of the HTML renderer\<close>

lemma open_tag_here_not_lt: "c \<noteq> 60 \<Longrightarrow> open_tag_here (c # cs) = None"
  by (auto simp: open_tag_here_def str_def)

lemma sub_open_tags_plain: "60 \<notin> set xs \<Longrightarrow> sub_open_tags (xs @ ys) = xs @ sub_open_tags ys"
  by (induction xs) (auto simp: open_tag_here_not_lt)

lemma close_tag_here_not_lt: "c \<noteq> 60 \<Longrightarrow> \<not> close_tag_here (c # cs)"
  by (auto simp: close_tag_here_def str_def)

lemma sub_close_tags_plain: "60 \<notin> set xs \<Longrightarrow> sub_close_tags (xs @ ys) = xs @ sub_close_tags ys"
  by (induction xs) (auto simp: close_tag_here_not_lt)

lemma good_hex_no_lt: "good_hex h \<Longrightarrow> 60 \<notin> set h"
  by (auto simp: good_hex_def is_hex_def)

lemma good_hex_no_nl: "good_hex h \<Longrightarrow> 10 \<notin> set h"
  by (auto simp: good_hex_def is_hex_def)

lemma open_tag_here_tag:
  "good_hex h \<Longrightarrow> open_tag_here (60 # 35 # h @ 62 # rest) = Some h"
  by (simp add: open_tag_here_def good_hex_def str_def nth_append)

lemma sub_open_tags_tag:
  assumes "good_hex h"
  shows "sub_open_tags (60 # 35 # h @ 62 # rest) = span_open h @ sub_open_tags rest"
proof -
  have "drop 8 (35 # h @ 62 # rest) = rest"
    using assms by (simp add: good_hex_def)
  then show ?thesis
    using open_tag_here_tag [OF assms, of rest] by simp
qed

lemma sub_open_tags_close:
  assumes "good_hex h"
  shows "sub_open_tags (60 # 47 # 35 # h @ [62]) = 60 # 47 # 35 # h @ [62]"
proof -
  have "open_tag_here (60 # 47 # 35 # h @ [62]) = None"
    by (simp add: open_tag_here_def str_def)
  moreover have "sub_open_tags ((47 # 35 # h @ [62]) @ []) = (47 # 35 # h @ [62]) @ sub_open_tags []"
    using good_hex_no_lt [OF assms] by (intro sub_open_tags_plain) auto
  ultimately show ?thesis by simp
qed

lemma close_tag_here_tag:
  "good_hex h \<Longrightarrow> close_tag_here (60 # 47 # 35 # h @ 62 # rest)"
  by (simp add: close_tag_here_def good_hex_def str_def nth_append)

lemma sub_close_tags_tag:
  assumes "good_hex h"
  shows "sub_close_tags (60 # 47 # 35 # h @ 62 # rest) = str ''</span>'' @ sub_close_tags rest"
proof -
  have "drop 9 (47 # 35 # h @ 62 # rest) = rest"
    using assms by (simp add: good_hex_def)
  then show ?thesis
    using close_tag_here_tag [OF assms, of rest] by simp
qed

lemma span_open_eq: "span_open h = 60 # (str ''span style='' @ [34] @ str ''color:#'' @ h @ str '';'' @ [34] @ str ''>'')"
  by (simp add: span_open_def str_def)

lemma sub_close_tags_span_open:
  assumes "good_hex h"
  shows "sub_close_tags (span_open h @ ys) = span_open h @ sub_close_tags ys"
proof -
  let ?body = "str ''span style='' @ [34] @ str ''color:#'' @ h @ str '';'' @ [34] @ str ''>''"
  have nolt: "60 \<notin> set ?body"
    using good_hex_no_lt [OF assms] by (simp add: str_def)
  have "\<not> close_tag_here (60 # ?body @ ys)"
    by (simp add: close_tag_here_def str_def)
  then have "sub_close_tags (60 # ?body @ ys) = 60 # sub_close_tags (?body @ ys)"
    by simp
  also have "sub_close_tags (?body @ ys) = ?body @ sub_close_tags ys"
    using nolt by (rule sub_close_tags_plain)
  finally show ?thesis by (simp add: span_open_eq)
qed

lemma replace_blank_lines_plain: "10 \<notin> set xs \<Longrightarrow> replace_blank_lines xs = xs"
  by (induction xs rule: replace_blank_lines.induct) auto

lemma replace_newlines_plain: "10 \<notin> set xs \<Longrightarrow> replace_newlines xs = xs"
  by (induction xs) (auto simp: replace_newlines_def)

lemma open_tag_here_before_lt:
  assumes "u \<noteq> []"
  shows "open_tag_here (u @ 60 # w) = open_tag_here u"
proof (cases "9 \<le> length u")
  case True
  then show ?thesis by (simp add: open_tag_here_def nth_append)
next
  case False
  then have n: "open_tag_here u = None" by (simp add: open_tag_here_def)
  have "open_tag_here (u @ 60 # w) = None"
  proof (rule ccontr)
    assume "open_tag_here (u @ 60 # w) \<noteq> None"
    then have a: "take 2 (u @ 60 # w) = str ''<#''"
      and b: "\<forall>c \<in> set (take 6 (drop 2 (u @ 60 # w))). is_hex c"
      and c: "(u @ 60 # w) ! 8 = 62"
      by (auto simp: open_tag_here_def split: if_splits)
    from False assms have "1 \<le> length u" "length u \<le> 8" by (cases u, simp_all)
    then consider "length u = 1" | "2 \<le> length u \<and> length u < 8" | "length u = 8" by linarith
    then show False
    proof cases
      case 1
      then obtain x where "u = [x]" by (cases u) auto
      with a show False by (simp add: str_def)
    next
      case 2
      then have "set (take 6 (drop 2 (u @ 60 # w)))
          = set (take 6 (drop 2 u)) \<union> set (take (8 - length u) (60 # w))" by simp
      moreover obtain k where "8 - length u = Suc k" using 2 by (cases "8 - length u") auto
      ultimately have "60 \<in> set (take 6 (drop 2 (u @ 60 # w)))" by simp
      with b have "is_hex 60" by blast
      then show False by (simp add: is_hex_def)
    next
      case 3
      with c show False by (simp add: nth_append)
    qed
  qed
  with n show ?thesis by simp
qed

lemma sub_open_tags_before_lt:
  "sub_open_tags (xs @ 60 # w) = sub_open_tags xs @ sub_open_tags (60 # w)"
proof -
  define v where "v = 60 # w"
  have "sub_open_tags (xs @ v) = sub_open_tags xs @ sub_open_tags v"
  proof (induction xs rule: sub_open_tags.induct)
    case 1
    show ?case by simp
  next
    case (2 c cs)
    have e: "open_tag_here (c # cs @ v) = open_tag_here (c # cs)"
      using open_tag_here_before_lt [of "c # cs" w] by (simp add: v_def)
    show ?case
    proof (cases "open_tag_here (c # cs)")
      case None
      with 2(1) [OF None] e show ?thesis by simp
    next
      case (Some hx)
      then have "9 \<le> length (c # cs)" by (auto simp: open_tag_here_def split: if_splits)
      then have "drop 8 (cs @ v) = drop 8 cs @ v" by simp
      with 2(2) [OF Some] e Some show ?thesis by simp
    qed
  qed
  then show ?thesis by (simp only: v_def)
qed

lemma close_tag_here_before_lt:
  assumes "u \<noteq> []"
  shows "close_tag_here (u @ 60 # w) = close_tag_here u"
proof (cases "10 \<le> length u")
  case True
  then show ?thesis by (simp add: close_tag_here_def nth_append)
next
  case False
  then have n: "\<not> close_tag_here u" by (simp add: close_tag_here_def)
  have "\<not> close_tag_here (u @ 60 # w)"
  proof
    assume "close_tag_here (u @ 60 # w)"
    then have a: "take 3 (u @ 60 # w) = str ''</#''"
      and b: "\<forall>c \<in> set (take 6 (drop 3 (u @ 60 # w))). is_hex c"
      and c: "(u @ 60 # w) ! 9 = 62"
      by (auto simp: close_tag_here_def)
    from False assms have "1 \<le> length u" "length u \<le> 9" by (cases u, simp_all)
    then consider "length u = 1" | "length u = 2" | "3 \<le> length u \<and> length u < 9"
      | "length u = 9" by linarith
    then show False
    proof cases
      case 1
      then obtain x where "u = [x]" by (cases u) auto
      with a show False by (simp add: str_def)
    next
      case 2
      then obtain x y where "u = [x, y]" by (cases u; cases "tl u") auto
      with a show False by (simp add: str_def)
    next
      case 3
      then have "set (take 6 (drop 3 (u @ 60 # w)))
          = set (take 6 (drop 3 u)) \<union> set (take (9 - length u) (60 # w))" by simp
      moreover obtain k where "9 - length u = Suc k" using 3 by (cases "9 - length u") auto
      ultimately have "60 \<in> set (take 6 (drop 3 (u @ 60 # w)))" by simp
      with b have "is_hex 60" by blast
      then show False by (simp add: is_hex_def)
    next
      case 4
      with c show False by (simp add: nth_append)
    qed
  qed
  with n show ?thesis by simp
qed

lemma sub_close_tags_before_lt:
  "sub_close_tags (xs @ 60 # w) = sub_close_tags xs @ sub_close_tags (60 # w)"
proof -
  define v where "v = 60 # w"
  have "sub_close_tags (xs @ v) = sub_close_tags xs @ sub_close_tags v"
  proof (induction xs rule: sub_close_tags.induct)
    case 1
    show ?case by simp
  next
    case (2 c cs)
    have e: "close_tag_here (c # cs @ v) = close_tag_here (c # cs)"
      using close_tag_here_before_lt [of "c # cs" w] by (simp add: v_def)
    show ?case
    proof (cases "close_tag_here (c # cs)")
      case False
      with 2(2) [OF False] e show ?thesis by simp
    next
      case True
      then have "10 \<le> length (c # cs)" by (auto simp: close_tag_here_def)
      then have "drop 9 (cs @ v) = drop 9 cs @ v" by simp
      with 2(1) [OF True] e True show ?thesis by simp
    qed
  qed
  then show ?thesis by (simp only: v_def)
qed

lemma replace_blank_lines_before:
  "c \<noteq> 10 \<Longrightarrow> replace_blank_lines (xs @ c # w) = replace_blank_lines xs @ replace_blank_lines (c # w)"
  by (induction xs rule: replace_blank_lines.induct) auto

lemma replace_blank_lines_prefix:
  "10 \<notin> set s \<Longrightarrow> replace_blank_lines (s @ r) = s @ replace_blank_lines r"
proof (induction s)
  case Nil
  show ?case by simp
next
  case (Cons x s)
  then show ?case by (cases "s @ r") auto
qed

lemma replace_newlines_append:
  "replace_newlines (a @ b) = replace_newlines a @ replace_newlines b"
  by (simp add: replace_newlines_def)

lemma sub_open_tags_id: "no_color_tag t \<Longrightarrow> sub_open_tags t = t"
  by (induction t) auto

lemma sub_close_tags_id: "no_color_tag t \<Longrightarrow> sub_close_tags t = t"
  by (induction t) auto

lemma span_open_no_nl: "good_hex h \<Longrightarrow> 10 \<notin> set (span_open h)"
  using good_hex_no_nl [of h] by (simp add: span_open_def str_def)

lemma html_body_open:
  assumes "good_hex h"
  shows "html_body (xs @ 60 # 35 # h @ 62 # ys) = html_body xs @ span_open h @ html_body ys"
proof -
  have o: "sub_open_tags (xs @ 60 # 35 # h @ 62 # ys)
           = sub_open_tags xs @ span_open h @ sub_open_tags ys"
    by (simp only: sub_open_tags_before_lt sub_open_tags_tag [OF assms])
  have "sub_close_tags (sub_open_tags xs @ span_open h @ sub_open_tags ys)
        = sub_close_tags (sub_open_tags xs) @ sub_close_tags (span_open h @ sub_open_tags ys)"
    unfolding span_open_eq by (simp only: append_Cons sub_close_tags_before_lt)
  then have c: "sub_close_tags (sub_open_tags xs @ span_open h @ sub_open_tags ys)
        = sub_close_tags (sub_open_tags xs) @ span_open h @ sub_close_tags (sub_open_tags ys)"
    by (simp only: sub_close_tags_span_open [OF assms])
  have "replace_blank_lines (sub_close_tags (sub_open_tags xs) @ span_open h
                             @ sub_close_tags (sub_open_tags ys))
        = replace_blank_lines (sub_close_tags (sub_open_tags xs))
          @ replace_blank_lines (span_open h @ sub_close_tags (sub_open_tags ys))"
    unfolding span_open_eq by (simp only: append_Cons replace_blank_lines_before)
  then have b: "replace_blank_lines (sub_close_tags (sub_open_tags xs) @ span_open h
                             @ sub_close_tags (sub_open_tags ys))
        = replace_blank_lines (sub_close_tags (sub_open_tags xs))
          @ span_open h @ replace_blank_lines (sub_close_tags (sub_open_tags ys))"
    by (simp only: replace_blank_lines_prefix [OF span_open_no_nl [OF assms]])
  show ?thesis
    unfolding html_body_def o c b
    by (simp only: replace_newlines_append replace_newlines_plain [OF span_open_no_nl [OF assms]])
qed

lemma html_body_close:
  assumes "good_hex h"
  shows "html_body (xs @ 60 # 47 # 35 # h @ 62 # ys)
         = html_body xs @ str ''</span>'' @ html_body ys"
proof -
  have n: "60 \<notin> set (47 # 35 # h @ [62])" using good_hex_no_lt [OF assms] by simp
  have "open_tag_here (60 # 47 # 35 # h @ 62 # ys) = None"
    by (simp add: open_tag_here_def str_def)
  then have "sub_open_tags (60 # 47 # 35 # h @ 62 # ys)
           = 60 # sub_open_tags ((47 # 35 # h @ [62]) @ ys)" by simp
  also have "\<dots> = 60 # (47 # 35 # h @ [62]) @ sub_open_tags ys"
    by (simp only: sub_open_tags_plain [OF n])
  finally have "sub_open_tags (60 # 47 # 35 # h @ 62 # ys)
           = 60 # 47 # 35 # h @ 62 # sub_open_tags ys" by simp
  then have o: "sub_open_tags (xs @ 60 # 47 # 35 # h @ 62 # ys)
           = sub_open_tags xs @ 60 # 47 # 35 # h @ 62 # sub_open_tags ys"
    by (simp only: sub_open_tags_before_lt)
  have c: "sub_close_tags (sub_open_tags xs @ 60 # 47 # 35 # h @ 62 # sub_open_tags ys)
        = sub_close_tags (sub_open_tags xs) @ str ''</span>'' @ sub_close_tags (sub_open_tags ys)"
    by (simp only: sub_close_tags_before_lt sub_close_tags_tag [OF assms])
  have sp: "str ''</span>'' = 60 # str ''/span>''" "10 \<notin> set (str ''</span>'')"
    by (simp_all add: str_def)
  have "replace_blank_lines (sub_close_tags (sub_open_tags xs) @ str ''</span>''
                             @ sub_close_tags (sub_open_tags ys))
        = replace_blank_lines (sub_close_tags (sub_open_tags xs))
          @ replace_blank_lines (str ''</span>'' @ sub_close_tags (sub_open_tags ys))"
    unfolding sp(1) by (simp only: append_Cons replace_blank_lines_before)
  then have b: "replace_blank_lines (sub_close_tags (sub_open_tags xs) @ str ''</span>''
                             @ sub_close_tags (sub_open_tags ys))
        = replace_blank_lines (sub_close_tags (sub_open_tags xs))
          @ str ''</span>'' @ replace_blank_lines (sub_close_tags (sub_open_tags ys))"
    by (simp only: replace_blank_lines_prefix [OF sp(2)])
  show ?thesis
    unfolding html_body_def o c b
    by (simp only: replace_newlines_append replace_newlines_plain [OF sp(2)])
qed

lemma html_body_plain:
  "no_color_tag t \<Longrightarrow> html_body t = replace_newlines (replace_blank_lines t)"
  by (simp add: html_body_def sub_open_tags_id sub_close_tags_id)

lemma no_lt_no_color_tag: "60 \<notin> set t \<Longrightarrow> no_color_tag t"
  by (induction t) (auto simp: open_tag_here_not_lt close_tag_here_not_lt)

lemma html_body_Nil: "html_body [] = []"
  by (simp add: html_body_def replace_newlines_def)

lemma html_body_text: "60 \<notin> set t \<Longrightarrow> 10 \<notin> set t \<Longrightarrow> html_body t = t"
  by (simp add: html_body_plain no_lt_no_color_tag replace_blank_lines_plain
      replace_newlines_plain)

lemma open_tag_str: "str ''<#'' @ h @ str ''>'' @ ys = 60 # 35 # h @ 62 # ys"
  by (simp add: str_def)

lemma close_tag_str: "str ''</#'' @ h @ str ''>'' @ ys = 60 # 47 # 35 # h @ 62 # ys"
  by (simp add: str_def)

lemma span_open_str:
  "span_open h @ ys = str ''<span style='' @ [34] @ str ''color:#'' @ h @ str '';'' @ [34] @ str ''>'' @ ys"
  by (simp add: span_open_def)

text \<open>
  C5, amended (colour handling of the HTML renderer): the renderer wraps the
  converted text \<open>html_body\<close> in the page template, and the conversion replaces every
  opening colour tag \<open><#HEX>\<close> by \<open><span style="color:#HEX;">\<close> and every closing
  colour tag \<open></#HEX>\<close> by \<open></span>\<close>, each on its own and wherever it stands: for all
  texts \<open>xs\<close> before and \<open>ys\<close> after the tag, the conversion of the whole is the
  conversion of \<open>xs\<close>, the replacement, and the conversion of \<open>ys\<close>.  Hence a pair
  \<open><#H>inner</#H2>\<close>, in any context and around any inner text, is rendered as a
  \<open>span\<close> of colour \<open>H\<close> around the converted inner text whether or not \<open>H\<close> and \<open>H2\<close>
  agree.  A text in which no colour tag starts is only subject to the two newline
  replacements, and a text without \<open><\<close> and line breaks is left as it is.
\<close>

theorem convert_color_tags:
  assumes "good_hex h"
  shows
   "convert_custom_text_to_html t = html_head @ html_body t @ html_tail
    \<and> html_body (xs @ str ''<#'' @ h @ str ''>'' @ ys)
        = html_body xs @ str ''<span style='' @ [34] @ str ''color:#'' @ h @ str '';'' @ [34]
          @ str ''>'' @ html_body ys
    \<and> html_body (xs @ str ''</#'' @ h @ str ''>'' @ ys)
        = html_body xs @ str ''</span>'' @ html_body ys
    \<and> (good_hex h2 \<longrightarrow>
         html_body (xs @ str ''<#'' @ h @ str ''>'' @ inner @ str ''</#'' @ h2 @ str ''>'' @ ys)
         = html_body xs @ str ''<span style='' @ [34] @ str ''color:#'' @ h @ str '';'' @ [34]
           @ str ''>'' @ html_body inner @ str ''</span>'' @ html_body ys)
    \<and> (no_color_tag t \<longrightarrow> html_body t = replace_newlines (replace_blank_lines t))
    \<and> (60 \<notin> set t \<and> 10 \<notin> set t \<longrightarrow> html_body t = t)"
proof (intro conjI impI)
  show "convert_custom_text_to_html t = html_head @ html_body t @ html_tail"
    by (rule convert_custom_text_to_html_def)
  show o: "\<And>xs ys. html_body (xs @ str ''<#'' @ h @ str ''>'' @ ys)
        = html_body xs @ str ''<span style='' @ [34] @ str ''color:#'' @ h @ str '';'' @ [34]
          @ str ''>'' @ html_body ys"
    unfolding open_tag_str by (simp only: html_body_open [OF assms] span_open_str)
  show "html_body (xs @ str ''</#'' @ h @ str ''>'' @ ys)
        = html_body xs @ str ''</span>'' @ html_body ys"
    unfolding close_tag_str by (rule html_body_close [OF assms])
  show "html_body (xs @ str ''<#'' @ h @ str ''>'' @ inner @ str ''</#'' @ h2 @ str ''>'' @ ys)
         = html_body xs @ str ''<span style='' @ [34] @ str ''color:#'' @ h @ str '';'' @ [34]
           @ str ''>'' @ html_body inner @ str ''</span>'' @ html_body ys"
    if "good_hex h2"
    unfolding o unfolding close_tag_str by (simp only: html_body_close [OF that])
  show "html_body t = replace_newlines (replace_blank_lines t)" if "no_color_tag t"
    using that by (rule html_body_plain)
  show "html_body t = t" if "60 \<notin> set t \<and> 10 \<notin> set t"
    using that by (simp add: html_body_text)
qed

theorem convert_color_tags_witness:
  "good_hex (str ''FF0000'')
   \<and> convert_custom_text_to_html (str ''<#FF0000>Hello</#FF0000>'')
     = html_head @ str ''<span style='' @ [34] @ str ''color:#FF0000;'' @ [34] @ str ''>Hello</span>''
       @ html_tail
   \<and> html_body (str ''a <#FF0000>b'') = str ''a <span style='' @ [34] @ str ''color:#FF0000;''
       @ [34] @ str ''>b''"
proof -
  have g: "good_hex (str ''FF0000'')" by (simp add: good_hex_def is_hex_def str_def)
  have i: "60 \<notin> set (str ''Hello'') \<and> 10 \<notin> set (str ''Hello'')"
    "60 \<notin> set (str ''a '') \<and> 10 \<notin> set (str ''a '')"
    "60 \<notin> set (str ''b'') \<and> 10 \<notin> set (str ''b'')" by (simp_all add: str_def)
  have s: "str ''<#FF0000>Hello</#FF0000>''
           = [] @ str ''<#'' @ str ''FF0000'' @ str ''>'' @ str ''Hello'' @ str ''</#''
             @ str ''FF0000'' @ str ''>'' @ []"
    "str ''a <#FF0000>b'' = str ''a '' @ str ''<#'' @ str ''FF0000'' @ str ''>'' @ str ''b''"
    by (simp_all add: str_def)
  note c = convert_color_tags [OF g]
  have h: "html_body (str ''Hello'') = str ''Hello''" "html_body (str ''a '') = str ''a ''"
    "html_body (str ''b'') = str ''b''"
    using c [of "str ''Hello''"] c [of "str ''a ''"] c [of "str ''b''"] i by blast+
  have p: "html_body (str ''<#FF0000>Hello</#FF0000>'')
      = str ''<span style='' @ [34] @ str ''color:#FF0000;'' @ [34] @ str ''>Hello</span>''"
    unfolding s(1) using c [of _ "[]" "[]" "str ''FF0000''" "str ''Hello''"] g
    by (simp add: h html_body_Nil) (simp add: str_def)
  have q: "html_body (str ''a <#FF0000>b'') = str ''a <span style='' @ [34] @ str ''color:#FF0000;''
       @ [34] @ str ''>b''"
    unfolding s(2) using c [of _ "str ''a ''" "str ''b''"]
    by (simp add: h) (simp add: str_def)
  show ?thesis
    using g p q c [of "str ''<#FF0000>Hello</#FF0000>''"] by simp
qed

text \<open>
  C5 as stated fails on the mismatched pair \<open><#FF0000>Hello</#00FF00>\<close>: it is not
  left as literal text, a \<open>span\<close> is emitted for it.
\<close>

theorem convert_mismatched_counterexample:
  "convert_custom_text_to_html (str ''<#FF0000>Hello</#00FF00>'')
   = html_head @ str ''<span style='' @ [34] @ str ''color:#FF0000;'' @ [34] @ str ''>Hello</span>''
     @ html_tail
   \<and> convert_custom_text_to_html (str ''<#FF0000>Hello</#00FF00>'')
     \<noteq> html_head @ str ''<#FF0000>Hello</#00FF00>'' @ html_tail"
proof -
  have g: "good_hex (str ''FF0000'')" "good_hex (str ''00FF00'')"
    by (simp_all add: good_hex_def is_hex_def str_def)
  have s: "str ''<#FF0000>Hello</#00FF00>''
           = [] @ 60 # 35 # str ''FF0000'' @ 62 # (str ''Hello'' @ 60 # 47 # 35 # str ''00FF00'' @ 62 # [])"
    by (simp add: str_def)
  have h: "html_body (str ''Hello'') = str ''Hello''"
    by (rule html_body_text) (simp_all add: str_def)
  have e: "html_body (str ''<#FF0000>Hello</#00FF00>'')
           = str ''<span style='' @ [34] @ str ''color:#FF0000;'' @ [34] @ str ''>Hello</span>''"
    unfolding s
    by (simp only: html_body_open [OF g(1)] html_body_close [OF g(2)] h html_body_Nil)
       (simp add: span_open_def str_def)
  show ?thesis
    unfolding convert_custom_text_to_html_def e by (simp add: str_def)
qed

section \<open>Properties of the tag tokenizer\<close>

lemma matches_cases:
  "matches t =
     (case bold_re_search t of Some m \<Rightarrow> [(m, KB)] | None \<Rightarrow> [])
     @ (case underline_re_search t of Some m \<Rightarrow> [(m, KU)] | None \<Rightarrow> [])
     @ (case italic_re_search t of Some m \<Rightarrow> [(m, KI)] | None \<Rightarrow> [])"
  by (simp add: matches_def List.map_filter_def split: option.splits)

lemma matches_Nil [simp]: "matches [] = []"
  by (simp add: matches_cases bold_re_search_def underline_re_search_def italic_re_search_def)


lemma add_runs_from_text_step:
  assumes "matches t = m0 # ms" "min_by_start m0 ms = (m, k)"
  shows "add_runs_from_text t c =
           (if 0 < m_start m then [plain_run (take (m_start m) t) c] else [])
           @ [fmt_run k (m_group1 m) c] @ add_runs_from_text (drop (m_end m) t) c"
proof -
  have "t \<noteq> []" using assms(1) by auto
  then show ?thesis
    using assms by (subst add_runs_from_text.simps) (simp add: Let_def)
qed

lemma add_runs_from_text_plain:
  "matches t = [] \<Longrightarrow> add_runs_from_text t c = (if t = [] then [] else [plain_run t c])"
  by (subst add_runs_from_text.simps) simp



section \<open>Properties of the cached LLM call\<close>

lemma call_openai_chat_hit:
  "CACHE w (hash_text ev (dumps ev rq)) = Some v \<Longrightarrow> call_openai_chat ev rq w = (Inr v, w)"
  by (simp add: call_openai_chat_def)

lemma call_openai_chat_keeps:
  "CACHE w k = Some v \<Longrightarrow> CACHE (snd (call_openai_chat ev rq w)) k = Some v"
  by (auto simp: call_openai_chat_def save_cache_def Let_def split: option.splits sum.splits)

lemma call_openai_chat_stores:
  assumes "call_openai_chat ev rq w = (Inr r, w1)"
  shows "CACHE w1 (hash_text ev (dumps ev rq)) = Some r \<and> api_calls w1 \<le> Suc (api_calls w)"
  using assms
  by (auto simp: call_openai_chat_def save_cache_def Let_def split: option.splits sum.splits if_splits)

lemma calls_keep:
  "CACHE w k = Some v \<Longrightarrow>
   CACHE (foldl (\<lambda>s q. snd (call_openai_chat ev q s)) w qs) k = Some v"
  by (induction qs arbitrary: w) (auto simp: call_openai_chat_keeps)

text \<open>
  C3, amended (cache at-most-once): when a call of the cached wrapper has returned a result,
  every later call with the same fingerprint, directly after it or after any
  number of other wrapper calls, returns that same result from the cache and leaves
  the state as it is, so the API is not invoked again; the first call invoked it at
  most once.
\<close>

theorem cache_at_most_once:
  assumes first: "call_openai_chat ev rq w = (Inr r, w1)"
    and same: "hash_text ev (dumps ev rq') = hash_text ev (dumps ev rq)"
  shows "call_openai_chat ev rq' w1 = (Inr r, w1)
         \<and> api_calls w1 \<le> Suc (api_calls w)
         \<and> (let w2 = foldl (\<lambda>s q. snd (call_openai_chat ev q s)) w1 qs
            in call_openai_chat ev rq' w2 = (Inr r, w2))"
proof -
  from call_openai_chat_stores [OF first]
  have st: "CACHE w1 (hash_text ev (dumps ev rq)) = Some r"
    and cnt: "api_calls w1 \<le> Suc (api_calls w)" by blast+
  have a: "call_openai_chat ev rq' w1 = (Inr r, w1)"
    using st same by (intro call_openai_chat_hit) simp
  have "CACHE (foldl (\<lambda>s q. snd (call_openai_chat ev q s)) w1 qs) (hash_text ev (dumps ev rq'))
          = Some r"
    using st same by (intro calls_keep) simp
  then have b: "let w2 = foldl (\<lambda>s q. snd (call_openai_chat ev q s)) w1 qs
            in call_openai_chat ev rq' w2 = (Inr r, w2)"
    by (simp add: Let_def call_openai_chat_hit)
  from a cnt b show ?thesis by blast
qed

text \<open>A small environment, request and initial state to run the wrapper on.\<close>

abbreviation env_ok :: env where
  "env_ok \<equiv> \<lparr>hash_text = (\<lambda>s. s), dumps = req_model,
             api = (\<lambda>n rq. Inr (Some (str ''ok''))), write_ok = (\<lambda>n. True),
             json_loads = (\<lambda>s. JInvalid), analysis_messages = (\<lambda>c. []),
             correction_messages = (\<lambda>c. [])\<rparr>"

abbreviation req_a :: request where
  "req_a \<equiv> \<lparr>req_model = str ''m'', req_messages = [(str ''user'', str ''hello'')],
            req_max_tokens = 1500, req_temperature = 0, req_response_format = None\<rparr>"

abbreviation world_empty :: world where
  "world_empty \<equiv> \<lparr>CACHE = Map.empty, api_calls = 0, writes = 0\<rparr>"

theorem cache_at_most_once_witness:
  "call_openai_chat env_ok req_a world_empty
     = (Inr (Some (str ''ok'')),
        \<lparr>CACHE = [str ''m'' \<mapsto> Some (str ''ok'')], api_calls = 1, writes = 1\<rparr>)
   \<and> call_openai_chat env_ok req_a
        \<lparr>CACHE = [str ''m'' \<mapsto> Some (str ''ok'')], api_calls = 1, writes = 1\<rparr>
     = (Inr (Some (str ''ok'')),
        \<lparr>CACHE = [str ''m'' \<mapsto> Some (str ''ok'')], api_calls = 1, writes = 1\<rparr>)"
proof -
  have first: "call_openai_chat env_ok req_a world_empty
     = (Inr (Some (str ''ok'')),
        \<lparr>CACHE = [str ''m'' \<mapsto> Some (str ''ok'')], api_calls = 1, writes = 1\<rparr>)"
    by (simp add: call_openai_chat_def save_cache_def)
  have same: "hash_text env_ok (dumps env_ok req_a) = hash_text env_ok (dumps env_ok req_a)"
    by simp
  show ?thesis
    using first cache_at_most_once [OF first same, of "[]"] by simp
qed

text \<open>
  Two environments: one whose first API invocation raises, one whose first write of
  the cache file fails.
\<close>

abbreviation env_api_raises_once :: env where
  "env_api_raises_once \<equiv> \<lparr>hash_text = (\<lambda>s. s), dumps = req_model,
             api = (\<lambda>n rq. if n = 0 then Inl APIError else Inr (Some (str ''ok''))),
             write_ok = (\<lambda>n. True),
             json_loads = (\<lambda>s. JInvalid), analysis_messages = (\<lambda>c. []),
             correction_messages = (\<lambda>c. [])\<rparr>"

abbreviation env_write_fails_once :: env where
  "env_write_fails_once \<equiv> \<lparr>hash_text = (\<lambda>s. s), dumps = req_model,
             api = (\<lambda>n rq. Inr (Some (str ''ok''))),
             write_ok = (\<lambda>n. n \<noteq> 0),
             json_loads = (\<lambda>s. JInvalid), analysis_messages = (\<lambda>c. []),
             correction_messages = (\<lambda>c. [])\<rparr>"

text \<open>
  C3 as stated, for every pair of calls, fails.  When the API raises in the first
  call nothing is stored, and the second call with the same request invokes the API
  again: two invocations for the pair.  When the write of the cache file fails, the
  first call raises although the result is already in \<open>CACHE\<close>, and the second call
  returns it: the two calls do not give the same result.
\<close>

theorem cache_pair_counterexample:
  "call_openai_chat env_api_raises_once req_a world_empty
     = (Inl APIError, \<lparr>CACHE = Map.empty, api_calls = 1, writes = 0\<rparr>)
   \<and> call_openai_chat env_api_raises_once req_a
        \<lparr>CACHE = Map.empty, api_calls = 1, writes = 0\<rparr>
     = (Inr (Some (str ''ok'')),
        \<lparr>CACHE = [str ''m'' \<mapsto> Some (str ''ok'')], api_calls = 2, writes = 1\<rparr>)
   \<and> call_openai_chat env_write_fails_once req_a world_empty
     = (Inl OSError, \<lparr>CACHE = [str ''m'' \<mapsto> Some (str ''ok'')], api_calls = 1, writes = 1\<rparr>)
   \<and> call_openai_chat env_write_fails_once req_a
        \<lparr>CACHE = [str ''m'' \<mapsto> Some (str ''ok'')], api_calls = 1, writes = 1\<rparr>
     = (Inr (Some (str ''ok'')),
        \<lparr>CACHE = [str ''m'' \<mapsto> Some (str ''ok'')], api_calls = 1, writes = 1\<rparr>)"
  by (simp add: call_openai_chat_def save_cache_def)

section \<open>Failure handling of the chunked LLM calls\<close>

lemma analyze_chunk_total:
  assumes "\<forall>s. json_loads ev s \<noteq> JOther"
  shows "\<exists>r w'. analyze_chunk ev model idx chunk w = (Inr r, w')"
  using assms
  by (auto simp: analyze_chunk_def split: prod.splits sum.splits option.splits parsed_json.splits)

lemma analyze_chunks_total:
  assumes "\<forall>s. json_loads ev s \<noteq> JOther"
  shows "\<exists>rs w'. analyze_chunks ev model idx chunks w = (Inr rs, w') \<and> length rs = length chunks"
proof (induction chunks arbitrary: idx w)
  case Nil
  show ?case by simp
next
  case (Cons c cs)
  obtain r w1 where r: "analyze_chunk ev model idx c w = (Inr r, w1)"
    using analyze_chunk_total [OF assms] by blast
  obtain rs w2 where rs: "analyze_chunks ev model (Suc idx) cs w1 = (Inr rs, w2)"
    "length rs = length cs"
    using Cons.IH by blast
  show ?case using r rs by simp
qed

lemma analyze_chunk_error:
  "analyze_out ev model chunk w = (Inl e, w') \<Longrightarrow>
   analyze_chunk ev model idx chunk w = (Inr (ErrorReport e idx), w')"
  by (simp add: analyze_chunk_def)

lemma analyze_chunks_append:
  assumes "analyze_chunks ev model idx pre w = (Inr rs1, w1)"
    and "analyze_chunks ev model (idx + length pre) post w1 = (Inr rs2, w2)"
  shows "analyze_chunks ev model idx (pre @ post) w = (Inr (rs1 @ rs2), w2)"
  using assms
proof (induction pre arbitrary: idx w rs1)
  case Nil
  then show ?case by simp
next
  case (Cons c cs)
  from Cons.prems(1) obtain r wa rs' where
    r: "analyze_chunk ev model idx c w = (Inr r, wa)"
    and rest: "analyze_chunks ev model (Suc idx) cs wa = (Inr rs', w1)"
    and eq: "rs1 = r # rs'"
    by (auto split: prod.splits sum.splits)
  have "analyze_chunks ev model (Suc idx) (cs @ post) wa = (Inr (rs' @ rs2), w2)"
    using Cons.prems(2) by (intro Cons.IH [OF rest]) simp
  then show ?case using r eq by simp
qed

lemma correct_chunks_append_fail:
  assumes "correct_chunks ev model pre w = (Inr ps, w1)"
    and "correct_chunk ev model c w1 = (Inl e, w2)"
  shows "correct_chunks ev model (pre @ c # post) w = (Inl e, w2)"
  using assms
proof (induction pre arbitrary: w ps)
  case Nil
  then show ?case by simp
next
  case (Cons a as)
  from Cons.prems(1) obtain p wa ps' where
    p: "correct_chunk ev model a w = (Inr p, wa)"
    and rest: "correct_chunks ev model as wa = (Inr ps', w1)"
    by (auto split: prod.splits sum.splits)
  have "correct_chunks ev model (as @ c # post) wa = (Inl e, w2)"
    by (rule Cons.IH [OF rest Cons.prems(2)])
  then show ?case using p by simp
qed

lemma correct_chunk_api_fail:
  assumes "CACHE w (hash_text ev (chunk @ str ''_correction'')) = None"
    and "call_openai_chat ev (correction_request ev model chunk) w = (Inl e, w')"
  shows "correct_chunk ev model chunk w = (Inl e, w')"
  using assms by (simp add: correct_chunk_def Let_def)

text \<open>
  Failure handling of the two chunked loops.  In \<open>analyze\<close> a failure of the call for
  one chunk becomes the error-shaped report of that chunk, between the reports of
  the chunks before and after it, and the loop returns one report per chunk unless
  a response parses to JSON that is not an object.  In \<open>correct_whole\<close> a failure of
  the call for one chunk is the result of the whole loop.
\<close>

lemma chunk_failure_isolation:
  "((\<forall>s. json_loads ev s \<noteq> JOther) \<longrightarrow>
      (\<exists>rs w'. analyze_chunks ev model idx chunks w = (Inr rs, w') \<and> length rs = length chunks))
   \<and> (analyze_chunks ev model idx pre w = (Inr rs1, w1)
        \<and> analyze_out ev model c w1 = (Inl e, w2)
        \<and> analyze_chunks ev model (Suc (idx + length pre)) post w2 = (Inr rs2, w3)
      \<longrightarrow> analyze_chunks ev model idx (pre @ c # post) w
            = (Inr (rs1 @ ErrorReport e (idx + length pre) # rs2), w3))
   \<and> (correct_chunks ev model pre w = (Inr ps, v1)
        \<and> CACHE v1 (hash_text ev (c @ str ''_correction'')) = None
        \<and> call_openai_chat ev (correction_request ev model c) v1 = (Inl e, v2)
      \<longrightarrow> correct_chunks ev model (pre @ c # post) w = (Inl e, v2))"
proof (intro conjI impI)
  assume "\<forall>s. json_loads ev s \<noteq> JOther"
  then show "\<exists>rs w'. analyze_chunks ev model idx chunks w = (Inr rs, w') \<and> length rs = length chunks"
    by (rule analyze_chunks_total)
next
  assume a: "analyze_chunks ev model idx pre w = (Inr rs1, w1)
        \<and> analyze_out ev model c w1 = (Inl e, w2)
        \<and> analyze_chunks ev model (Suc (idx + length pre)) post w2 = (Inr rs2, w3)"
  then have "analyze_chunks ev model (idx + length pre) (c # post) w1
               = (Inr (ErrorReport e (idx + length pre) # rs2), w3)"
    by (simp add: analyze_chunk_error)
  with a show "analyze_chunks ev model idx (pre @ c # post) w
            = (Inr (rs1 @ ErrorReport e (idx + length pre) # rs2), w3)"
    by (intro analyze_chunks_append) auto
next
  assume a: "correct_chunks ev model pre w = (Inr ps, v1)
        \<and> CACHE v1 (hash_text ev (c @ str ''_correction'')) = None
        \<and> call_openai_chat ev (correction_request ev model c) v1 = (Inl e, v2)"
  then have "correct_chunk ev model c v1 = (Inl e, v2)"
    by (intro correct_chunk_api_fail) auto
  with a show "correct_chunks ev model (pre @ c # post) w = (Inl e, v2)"
    by (intro correct_chunks_append_fail) auto
qed

text \<open>An environment whose first API invocation raises and whose later ones answer.\<close>

abbreviation env_fail_first :: env where
  "env_fail_first \<equiv> \<lparr>hash_text = (\<lambda>s. s), dumps = (\<lambda>rq. concat (map snd (req_messages rq))),
             api = (\<lambda>n rq. if n = 0 then Inl APIError else Inr (Some (str ''ok''))),
             write_ok = (\<lambda>n. True), json_loads = (\<lambda>s. JObject s),
             analysis_messages = (\<lambda>c. [(str ''user'', c)]),
             correction_messages = (\<lambda>c. [(str ''user'', c)])\<rparr>"

lemma chunk_failure_isolation_example:
  "analyze_chunks env_fail_first (str ''m'') 0 [str ''ab'', str ''cd''] world_empty
     = (Inr [ErrorReport APIError 0, ParsedReport (str ''ok'') 1],
        \<lparr>CACHE = [str ''cd'' \<mapsto> Some (str ''ok''), str ''cd_analysis'' \<mapsto> Some (str ''ok'')],
          api_calls = 2, writes = 2\<rparr>)
   \<and> correct_chunks env_fail_first (str ''m'') [str ''ab'', str ''cd''] world_empty
     = (Inl APIError, \<lparr>CACHE = Map.empty, api_calls = 1, writes = 0\<rparr>)"
proof -
  have j: "\<forall>s. json_loads env_fail_first s \<noteq> JOther" by simp
  have h1: "analyze_chunks env_fail_first (str ''m'') 0 [] world_empty = (Inr [], world_empty)"
    by simp
  have h2: "analyze_out env_fail_first (str ''m'') (str ''ab'') world_empty
              = (Inl APIError, \<lparr>CACHE = Map.empty, api_calls = 1, writes = 0\<rparr>)"
    by (simp add: analyze_out_def call_openai_chat_def analysis_request_def str_def)
  have h3: "analyze_chunks env_fail_first (str ''m'') (Suc (0 + length ([] :: pystr list))) [str ''cd'']
              \<lparr>CACHE = Map.empty, api_calls = 1, writes = 0\<rparr>
            = (Inr [ParsedReport (str ''ok'') 1],
               \<lparr>CACHE = [str ''cd'' \<mapsto> Some (str ''ok''), str ''cd_analysis'' \<mapsto> Some (str ''ok'')],
                 api_calls = 2, writes = 2\<rparr>)"
    by (simp add: analyze_chunk_def analyze_out_def call_openai_chat_def analysis_request_def
          save_cache_def str_def)
  have g1: "correct_chunks env_fail_first (str ''m'') [] world_empty = (Inr [], world_empty)"
    by simp
  have g2: "CACHE world_empty (hash_text env_fail_first (str ''ab'' @ str ''_correction'')) = None"
    by simp
  have g3: "call_openai_chat env_fail_first (correction_request env_fail_first (str ''m'') (str ''ab''))
              world_empty
            = (Inl APIError, \<lparr>CACHE = Map.empty, api_calls = 1, writes = 0\<rparr>)"
    by (simp add: call_openai_chat_def correction_request_def str_def)
  note t = chunk_failure_isolation [of env_fail_first "str ''m''" 0 "[str ''ab'', str ''cd'']"
      world_empty "[]" "[]" world_empty "str ''ab''" APIError
      "\<lparr>CACHE = Map.empty, api_calls = 1, writes = 0\<rparr>" "[str ''cd'']"
      "[ParsedReport (str ''ok'') 1]"
      "\<lparr>CACHE = [str ''cd'' \<mapsto> Some (str ''ok''), str ''cd_analysis'' \<mapsto> Some (str ''ok'')],
                 api_calls = 2, writes = 2\<rparr>"
      "[]" world_empty "\<lparr>CACHE = Map.empty, api_calls = 1, writes = 0\<rparr>"]
  from t j h1 h2 h3 have a: "analyze_chunks env_fail_first (str ''m'') 0 ([] @ str ''ab'' # [str ''cd'']) world_empty
     = (Inr ([] @ ErrorReport APIError (0 + length ([] :: pystr list)) # [ParsedReport (str ''ok'') 1]),
        \<lparr>CACHE = [str ''cd'' \<mapsto> Some (str ''ok''), str ''cd_analysis'' \<mapsto> Some (str ''ok'')],
          api_calls = 2, writes = 2\<rparr>)"
    by blast
  from t g1 g2 g3 have b: "correct_chunks env_fail_first (str ''m'') ([] @ str ''ab'' # [str ''cd'']) world_empty
     = (Inl APIError, \<lparr>CACHE = Map.empty, api_calls = 1, writes = 0\<rparr>)"
    by blast
  from a b show ?thesis by simp
qed

lemma chunk_text_two:
  "chunk_text (replicate 7001 97) CHUNK_SIZE = Some [replicate 7000 97, [97]]"
proof -
  have t: "take 7000 (replicate 7001 (97::nat)) = replicate 7000 97" by simp
  have "drop 7000 (replicate 7001 (97::nat)) = replicate (7001 - 7000) 97"
    by (rule drop_replicate)
  also have "(7001::nat) - 7000 = 1" by simp
  finally have d: "drop 7000 (replicate 7001 (97::nat)) = [97]" by simp
  show ?thesis
    unfolding chunk_text_def CHUNK_SIZE_def
    by (simp add: chunk_loop.simps chunk_end_def py_slice_def py_index_def Let_def t d)
qed

text \<open>
  C9 (per-chunk failure isolation) on \<open>correct_whole\<close>: a text of 7001 characters has
  two chunks; when the API call for the first chunk raises, \<open>correct_whole\<close> raises
  that exception: there is no error-shaped result for the chunk and the second
  chunk, whose call would have answered, is never processed.
\<close>

theorem correct_whole_failure_propagates:
  "chunk_text (replicate 7001 97) CHUNK_SIZE = Some [replicate 7000 97, [97]]
   \<and> correct_whole env_fail_first (str ''m'') (replicate 7001 97) world_empty
       = Some (Inl APIError, \<lparr>CACHE = Map.empty, api_calls = 1, writes = 0\<rparr>)
   \<and> call_openai_chat env_fail_first (correction_request env_fail_first (str ''m'') [97])
        \<lparr>CACHE = Map.empty, api_calls = 1, writes = 0\<rparr>
       = (Inr (Some (str ''ok'')),
          \<lparr>CACHE = [[97] \<mapsto> Some (str ''ok'')], api_calls = 2, writes = 1\<rparr>)"
proof -
  have c: "correct_chunks env_fail_first (str ''m'') [replicate 7000 97, [97]] world_empty
       = (Inl APIError, \<lparr>CACHE = Map.empty, api_calls = 1, writes = 0\<rparr>)"
    by (simp add: correct_chunk_def call_openai_chat_def correction_request_def Let_def)
  have s: "call_openai_chat env_fail_first (correction_request env_fail_first (str ''m'') [97])
        \<lparr>CACHE = Map.empty, api_calls = 1, writes = 0\<rparr>
       = (Inr (Some (str ''ok'')),
          \<lparr>CACHE = [[97] \<mapsto> Some (str ''ok'')], api_calls = 2, writes = 1\<rparr>)"
    by (simp add: call_openai_chat_def correction_request_def save_cache_def)
  show ?thesis
    using c s by (simp add: correct_whole_def chunk_text_two)
qed

section \<open>Round trip: the tokenizer on the markup of simple runs\<close>

lemma shift_match_eq: "shift_match = shift_by 1"
  by (auto simp: shift_match_def shift_by_def fun_eq_iff)

lemma shift_by_0 [simp]: "shift_by 0 m = m"
  by (simp add: shift_by_def)

lemma pair_match_here_other: "x \<noteq> c \<Longrightarrow> pair_match_here c (x # xs) = None"
  by (auto simp: pair_match_here_def split: list.splits)

lemma pair_search_skip:
  "c \<notin> set t \<Longrightarrow> pair_search c (t @ T) = map_option (shift_by (length t)) (pair_search c T)"
proof (induction t)
  case Nil
  show ?case by (simp add: option.map_ident)
next
  case (Cons x t)
  then have a: "pair_match_here c (x # t @ T) = None"
    by (intro pair_match_here_other) auto
  from Cons have b: "pair_search c (t @ T) = map_option (shift_by (length t)) (pair_search c T)"
    by simp
  have c: "map_option shift_match (map_option (shift_by (length t)) (pair_search c T))
           = map_option (shift_by (Suc (length t))) (pair_search c T)"
    by (cases "pair_search c T") (simp_all add: shift_match_def shift_by_def)
  show ?case by (simp add: a b c)
qed

lemma pair_search_none: "c \<notin> set t \<Longrightarrow> pair_search c t = None"
  using pair_search_skip [of c t "[]"] by simp

lemma lone_star_prev: "prev \<noteq> Some 42 \<Longrightarrow> lone_star prev t = lone_star None t"
  by (auto simp: lone_star_def split: list.splits)

lemma italic_match_here_prev:
  "prev \<noteq> Some 42 \<Longrightarrow> italic_match_here prev t = italic_match_here None t"
  by (simp add: italic_match_here_def lone_star_prev [of prev] split: list.splits)

lemma italic_search_prev:
  "prev \<noteq> Some 42 \<Longrightarrow> italic_search prev t = italic_search None t"
  by (cases t) (simp_all add: italic_match_here_prev [of prev])

lemma italic_match_here_other: "x \<noteq> 42 \<Longrightarrow> italic_match_here prev (x # xs) = None"
  by (auto simp: italic_match_here_def lone_star_def split: list.splits)

lemma italic_search_skip:
  "42 \<notin> set t \<Longrightarrow> prev \<noteq> Some 42 \<Longrightarrow>
   italic_search prev (t @ T) = map_option (shift_by (length t)) (italic_search None T)"
proof (induction t arbitrary: prev)
  case Nil
  then show ?case by (simp add: italic_search_prev [of prev T] option.map_ident)
next
  case (Cons x t)
  from Cons.prems have x: "x \<noteq> 42" and t: "42 \<notin> set t" by auto
  have a: "italic_match_here prev (x # t @ T) = None"
    using x by (rule italic_match_here_other)
  have b: "italic_search (Some x) (t @ T) = map_option (shift_by (length t)) (italic_search None T)"
    using t x by (intro Cons.IH) auto
  have c: "map_option shift_match (map_option (shift_by (length t)) (italic_search None T))
           = map_option (shift_by (Suc (length t))) (italic_search None T)"
    by (cases "italic_search None T") (simp_all add: shift_match_def shift_by_def)
  show ?case
    by (simp add: a b c)
qed

lemma italic_search_none: "42 \<notin> set t \<Longrightarrow> italic_search None t = None"
  using italic_search_skip [of t None "[]"] by simp

lemma matches_skip:
  assumes "42 \<notin> set t" "95 \<notin> set t"
  shows "matches (t @ T) = map (\<lambda>(m, k). (shift_by (length t) m, k)) (matches T)"
  using assms
  by (simp add: matches_cases bold_re_search_def underline_re_search_def italic_re_search_def
        pair_search_skip italic_search_skip split: option.splits)

lemma matches_none: "42 \<notin> set t \<Longrightarrow> 95 \<notin> set t \<Longrightarrow> matches t = []"
  using matches_skip [of t "[]"] by simp

lemma min_by_start_shift:
  "min_by_start (shift_by n (fst m0), snd m0) (map (\<lambda>(m, k). (shift_by n m, k)) ms)
   = (shift_by n (fst (min_by_start m0 ms)), snd (min_by_start m0 ms))"
  unfolding min_by_start_def
proof (induction ms arbitrary: m0)
  case Nil
  show ?case by simp
next
  case (Cons a ms)
  let ?f = "\<lambda>best x. if m_start (fst x) < m_start (fst best) then x else (best :: re_match \<times> kind)"
  have st: "?f (shift_by n (fst m0), snd m0) (case a of (m, k) \<Rightarrow> (shift_by n m, k))
        = (shift_by n (fst (?f m0 a)), snd (?f m0 a))"
    by (cases a) (simp add: shift_by_def)
  have "foldl ?f (shift_by n (fst m0), snd m0) (map (\<lambda>(m, k). (shift_by n m, k)) (a # ms))
        = foldl ?f (?f (shift_by n (fst m0), snd m0) (case a of (m, k) \<Rightarrow> (shift_by n m, k)))
            (map (\<lambda>(m, k). (shift_by n m, k)) ms)"
    by (simp only: list.map foldl_Cons)
  also have "\<dots> = foldl ?f (shift_by n (fst (?f m0 a)), snd (?f m0 a))
            (map (\<lambda>(m, k). (shift_by n m, k)) ms)"
    by (simp only: st)
  also have "\<dots> = (shift_by n (fst (foldl ?f (?f m0 a) ms)), snd (foldl ?f (?f m0 a) ms))"
    by (rule Cons.IH)
  finally show ?case by (simp only: foldl_Cons)
qed

lemma find_pair_skip: "c \<notin> set xs \<Longrightarrow> find_pair c (xs @ c # c # R) = Some (length xs)"
proof (induction xs)
  case Nil
  show ?case by simp
next
  case (Cons x xs)
  obtain y zs where e: "xs @ c # c # R = y # zs" by (cases xs) auto
  have "find_pair c (x # y # zs) = map_option Suc (find_pair c (y # zs))"
    using Cons.prems by simp
  then show ?case using Cons e by simp
qed

lemma pair_match_here_head:
  assumes "t \<noteq> []" "c \<notin> set t"
  shows "pair_match_here c (c # c # t @ c # c # R)
         = Some \<lparr>m_start = 0, m_group1 = t, m_end = length t + 4\<rparr>"
proof -
  obtain r rs where t: "t = r # rs" using assms(1) by (cases t) auto
  have "find_pair c (rs @ c # c # R) = Some (length rs)"
    using assms(2) t by (intro find_pair_skip) auto
  then show ?thesis by (simp add: pair_match_here_def t)
qed

lemma pair_search_head:
  assumes "t \<noteq> []" "c \<notin> set t"
  shows "pair_search c (c # c # t @ c # c # R)
         = Some \<lparr>m_start = 0, m_group1 = t, m_end = length t + 4\<rparr>"
  using pair_match_here_head [OF assms, of R] by simp

lemma find_lone_star_skip:
  "42 \<notin> set xs \<Longrightarrow> prev \<noteq> Some 42 \<Longrightarrow> R = [] \<or> hd R \<noteq> 42 \<Longrightarrow>
   find_lone_star prev (xs @ 42 # R) = Some (length xs)"
proof (induction xs arbitrary: prev)
  case Nil
  then show ?case by (cases R) (auto simp: lone_star_def)
next
  case (Cons x xs)
  have "\<not> lone_star prev (x # xs @ 42 # R)"
    using Cons.prems by (simp add: lone_star_def)
  moreover have "find_lone_star (Some x) (xs @ 42 # R) = Some (length xs)"
    using Cons.prems by (intro Cons.IH) auto
  ultimately show ?case by simp
qed

lemma italic_search_head:
  assumes "t \<noteq> []" "42 \<notin> set t" "R = [] \<or> hd R \<noteq> 42"
  shows "italic_search None (42 # t @ 42 # R)
         = Some \<lparr>m_start = 0, m_group1 = t, m_end = length t + 2\<rparr>"
proof -
  obtain r rs where t: "t = r # rs" using assms(1) by (cases t) auto
  have l: "lone_star None (42 # r # rs @ 42 # R)"
    using assms(2) t by (simp add: lone_star_def)
  have "find_lone_star (Some r) (rs @ 42 # R) = Some (length rs)"
    using assms t by (intro find_lone_star_skip) auto
  then have "italic_match_here None (42 # t @ 42 # R)
         = Some \<lparr>m_start = 0, m_group1 = t, m_end = length t + 2\<rparr>"
    using l by (simp add: italic_match_here_def t)
  then show ?thesis by simp
qed

lemma pair_search_late:
  "pair_match_here c T = None \<Longrightarrow> pair_search c T = Some m \<Longrightarrow> 0 < m_start m"
  by (cases T) (auto simp: shift_match_def)

lemma italic_search_late:
  "italic_match_here prev T = None \<Longrightarrow> italic_search prev T = Some m \<Longrightarrow> 0 < m_start m"
  by (cases T) (auto simp: shift_match_def)

lemma min_by_start_head:
  assumes "matches T = m0 # ms" "(m, k) \<in> set (matches T)" "m_start m = 0"
    and "\<forall>(m', k') \<in> set (matches T). k' \<noteq> k \<longrightarrow> 0 < m_start m'"
  shows "min_by_start m0 ms = (m, k)"
  using assms
  by (cases "bold_re_search T"; cases "underline_re_search T"; cases "italic_re_search T")
     (auto simp: matches_cases min_by_start_def split: if_splits)

lemma matches_mem:
  "(m, k) \<in> set (matches T) \<longleftrightarrow>
     (case k of KB \<Rightarrow> bold_re_search T = Some m
              | KU \<Rightarrow> underline_re_search T = Some m
              | KI \<Rightarrow> italic_re_search T = Some m)"
  by (cases k) (auto simp: matches_cases split: option.splits)

lemma matches_nonempty: "(m, k) \<in> set (matches T) \<Longrightarrow> \<exists>m0 ms. matches T = m0 # ms"
  by (cases "matches T") auto

lemma bold_head_choice:
  assumes "t \<noteq> []" "42 \<notin> set t"
  shows "\<exists>m0 ms. matches (42 # 42 # t @ 42 # 42 # R) = m0 # ms
           \<and> min_by_start m0 ms = (\<lparr>m_start = 0, m_group1 = t, m_end = length t + 4\<rparr>, KB)"
proof -
  let ?T = "42 # 42 # t @ 42 # 42 # R"
  let ?m = "\<lparr>m_start = 0, m_group1 = t, m_end = length t + 4\<rparr>"
  have mem: "(?m, KB) \<in> set (matches ?T)"
    using pair_search_head [OF assms, of R] by (simp add: matches_mem bold_re_search_def)
  have u: "pair_match_here 95 ?T = None" by (rule pair_match_here_other) simp
  have i: "italic_match_here None ?T = None"
    by (simp add: italic_match_here_def lone_star_def)
  have late: "\<forall>(m', k') \<in> set (matches ?T). k' \<noteq> KB \<longrightarrow> 0 < m_start m'"
  proof (clarify)
    fix m' k' assume "(m', k') \<in> set (matches ?T)" "k' \<noteq> KB"
    then show "0 < m_start m'"
      using pair_search_late [OF u] italic_search_late [OF i]
      by (cases k') (auto simp: matches_mem underline_re_search_def italic_re_search_def)
  qed
  from matches_nonempty [OF mem] obtain m0 ms where e: "matches ?T = m0 # ms" by blast
  have "min_by_start m0 ms = (?m, KB)"
    using e mem late by (intro min_by_start_head [of ?T]) auto
  with e show ?thesis by blast
qed

lemma underline_head_choice:
  assumes "t \<noteq> []" "95 \<notin> set t"
  shows "\<exists>m0 ms. matches (95 # 95 # t @ 95 # 95 # R) = m0 # ms
           \<and> min_by_start m0 ms = (\<lparr>m_start = 0, m_group1 = t, m_end = length t + 4\<rparr>, KU)"
proof -
  let ?T = "95 # 95 # t @ 95 # 95 # R"
  let ?m = "\<lparr>m_start = 0, m_group1 = t, m_end = length t + 4\<rparr>"
  have mem: "(?m, KU) \<in> set (matches ?T)"
    using pair_search_head [OF assms, of R] by (simp add: matches_mem underline_re_search_def)
  have b: "pair_match_here 42 ?T = None" by (rule pair_match_here_other) simp
  have i: "italic_match_here None ?T = None" by (rule italic_match_here_other) simp
  have late: "\<forall>(m', k') \<in> set (matches ?T). k' \<noteq> KU \<longrightarrow> 0 < m_start m'"
  proof (clarify)
    fix m' k' assume "(m', k') \<in> set (matches ?T)" "k' \<noteq> KU"
    then show "0 < m_start m'"
      using pair_search_late [OF b] italic_search_late [OF i]
      by (cases k') (auto simp: matches_mem bold_re_search_def italic_re_search_def)
  qed
  from matches_nonempty [OF mem] obtain m0 ms where e: "matches ?T = m0 # ms" by blast
  have "min_by_start m0 ms = (?m, KU)"
    using e mem late by (intro min_by_start_head [of ?T]) auto
  with e show ?thesis by blast
qed

lemma italic_head_choice:
  assumes "t \<noteq> []" "42 \<notin> set t" "R = [] \<or> hd R \<noteq> 42"
  shows "\<exists>m0 ms. matches (42 # t @ 42 # R) = m0 # ms
           \<and> min_by_start m0 ms = (\<lparr>m_start = 0, m_group1 = t, m_end = length t + 2\<rparr>, KI)"
proof -
  let ?T = "42 # t @ 42 # R"
  let ?m = "\<lparr>m_start = 0, m_group1 = t, m_end = length t + 2\<rparr>"
  obtain r rs where t: "t = r # rs" using assms(1) by (cases t) auto
  have mem: "(?m, KI) \<in> set (matches ?T)"
    using italic_search_head [OF assms] by (simp add: matches_mem italic_re_search_def)
  have b: "pair_match_here 42 ?T = None"
    using assms(2) by (simp add: pair_match_here_def t split: list.splits)
  have u: "pair_match_here 95 ?T = None" by (rule pair_match_here_other) simp
  have late: "\<forall>(m', k') \<in> set (matches ?T). k' \<noteq> KI \<longrightarrow> 0 < m_start m'"
  proof (clarify)
    fix m' k' assume "(m', k') \<in> set (matches ?T)" "k' \<noteq> KI"
    then show "0 < m_start m'"
      using pair_search_late [OF b] pair_search_late [OF u]
      by (cases k') (auto simp: matches_mem bold_re_search_def underline_re_search_def)
  qed
  from matches_nonempty [OF mem] obtain m0 ms where e: "matches ?T = m0 # ms" by blast
  have "min_by_start m0 ms = (?m, KI)"
    using e mem late by (intro min_by_start_head [of ?T]) auto
  with e show ?thesis by blast
qed

text \<open>What the loop does at a styled run, with or without plain text before it.\<close>

lemma styled_head_choice:
  assumes "clean_text (run_text r)" "single_style r" "\<not> is_plain r"
    and "italic r \<longrightarrow> R = [] \<or> hd R \<noteq> 42"
  shows "\<exists>m0 ms k. matches (inline_markup r @ R) = m0 # ms
           \<and> min_by_start m0 ms
               = (\<lparr>m_start = 0, m_group1 = run_text r, m_end = length (inline_markup r)\<rparr>, k)
           \<and> (\<forall>c. fmt_run k (run_text r) c = r\<lparr>color := c\<rparr>)"
proof -
  from assms(1) have ne: "run_text r \<noteq> []" and s: "42 \<notin> set (run_text r)"
    and u: "95 \<notin> set (run_text r)"
    by (auto simp: clean_text_def)
  consider (b) "bold r" | (i) "italic r" "\<not> bold r" | (u) "underline r" "\<not> bold r" "\<not> italic r"
    using assms(3) by (auto simp: is_plain_def)
  then show ?thesis
  proof cases
    case b
    with assms(2) have f: "\<not> italic r" "\<not> underline r" by (auto simp: single_style_def)
    have fm: "\<forall>c. fmt_run KB (run_text r) c = r\<lparr>color := c\<rparr>"
      using b f by (simp add: fmt_run_def add_run_def)
    have im: "inline_markup r @ R = 42 # 42 # run_text r @ 42 # 42 # R"
      and len: "length (inline_markup r) = length (run_text r) + 4"
      using b by (simp_all add: inline_markup_def str_def)
    from bold_head_choice [OF ne s, of R] obtain m0 ms where
      "matches (42 # 42 # run_text r @ 42 # 42 # R) = m0 # ms"
      "min_by_start m0 ms = (\<lparr>m_start = 0, m_group1 = run_text r,
                               m_end = length (run_text r) + 4\<rparr>, KB)"
      by blast
    then show ?thesis unfolding im len using fm by blast
  next
    case i
    with assms(2) have f: "\<not> underline r" by (auto simp: single_style_def)
    have fm: "\<forall>c. fmt_run KI (run_text r) c = r\<lparr>color := c\<rparr>"
      using i f by (simp add: fmt_run_def add_run_def)
    have im: "inline_markup r @ R = 42 # run_text r @ 42 # R"
      and len: "length (inline_markup r) = length (run_text r) + 2"
      using i by (simp_all add: inline_markup_def str_def)
    have R: "R = [] \<or> hd R \<noteq> 42" using i assms(4) by simp
    from italic_head_choice [OF ne s R] obtain m0 ms where
      "matches (42 # run_text r @ 42 # R) = m0 # ms"
      "min_by_start m0 ms = (\<lparr>m_start = 0, m_group1 = run_text r,
                               m_end = length (run_text r) + 2\<rparr>, KI)"
      by blast
    then show ?thesis unfolding im len using fm by blast
  next
    case u
    have fm: "\<forall>c. fmt_run KU (run_text r) c = r\<lparr>color := c\<rparr>"
      using u by (simp add: fmt_run_def add_run_def)
    have im: "inline_markup r @ R = 95 # 95 # run_text r @ 95 # 95 # R"
      and len: "length (inline_markup r) = length (run_text r) + 4"
      using u by (simp_all add: inline_markup_def str_def)
    from underline_head_choice [OF ne \<open>95 \<notin> set (run_text r)\<close>, of R] obtain m0 ms where
      "matches (95 # 95 # run_text r @ 95 # 95 # R) = m0 # ms"
      "min_by_start m0 ms = (\<lparr>m_start = 0, m_group1 = run_text r,
                               m_end = length (run_text r) + 4\<rparr>, KU)"
      by blast
    then show ?thesis unfolding im len using fm by blast
  qed
qed

lemma add_runs_styled:
  assumes "clean_text (run_text r)" "single_style r" "\<not> is_plain r"
    and "italic r \<longrightarrow> R = [] \<or> hd R \<noteq> 42"
  shows "add_runs_from_text (inline_markup r @ R) c = r\<lparr>color := c\<rparr> # add_runs_from_text R c"
proof -
  from styled_head_choice [OF assms] obtain m0 ms k where
    m: "matches (inline_markup r @ R) = m0 # ms"
    and c: "min_by_start m0 ms
               = (\<lparr>m_start = 0, m_group1 = run_text r, m_end = length (inline_markup r)\<rparr>, k)"
    and f: "\<forall>c. fmt_run k (run_text r) c = r\<lparr>color := c\<rparr>"
    by blast
  show ?thesis
    using add_runs_from_text_step [OF m c, of c] f by simp
qed

lemma add_runs_plain_styled:
  assumes "clean_text t"
    and "clean_text (run_text r)" "single_style r" "\<not> is_plain r"
    and "italic r \<longrightarrow> R = [] \<or> hd R \<noteq> 42"
  shows "add_runs_from_text (t @ inline_markup r @ R) c
         = plain_run t c # r\<lparr>color := c\<rparr> # add_runs_from_text R c"
proof -
  from assms(1) have ne: "t \<noteq> []" and s: "42 \<notin> set t" and u: "95 \<notin> set t"
    by (auto simp: clean_text_def)
  from styled_head_choice [OF assms(2-5)] obtain m0 ms k where
    m: "matches (inline_markup r @ R) = m0 # ms"
    and c: "min_by_start m0 ms
               = (\<lparr>m_start = 0, m_group1 = run_text r, m_end = length (inline_markup r)\<rparr>, k)"
    and f: "\<forall>c. fmt_run k (run_text r) c = r\<lparr>color := c\<rparr>"
    by blast
  let ?n = "length t"
  have m': "matches (t @ inline_markup r @ R)
            = (shift_by ?n (fst m0), snd m0) # map (\<lambda>(m, k). (shift_by ?n m, k)) ms"
    using matches_skip [OF s u, of "inline_markup r @ R"] m by (simp add: case_prod_beta)
  have c': "min_by_start (shift_by ?n (fst m0), snd m0) (map (\<lambda>(m, k). (shift_by ?n m, k)) ms)
            = (\<lparr>m_start = ?n, m_group1 = run_text r, m_end = length (inline_markup r) + ?n\<rparr>, k)"
    by (simp only: min_by_start_shift c) (simp add: shift_by_def)
  show ?thesis
    using add_runs_from_text_step [OF m' c', of c] f ne by simp
qed

lemma add_runs_plain:
  assumes "clean_text t"
  shows "add_runs_from_text t c = [plain_run t c]"
proof -
  from assms have "matches t = []" "t \<noteq> []"
    by (auto simp: clean_text_def intro: matches_none)
  then show ?thesis by (simp add: add_runs_from_text_plain)
qed

lemma inline_markup_nonempty: "run_text r \<noteq> [] \<Longrightarrow> inline_markup r \<noteq> []"
  by (simp add: inline_markup_def str_def)

lemma hd_inline_markup:
  assumes "clean_text (run_text r)" "\<not> italic r" "\<not> bold r"
  shows "hd (inline_markup r @ X) \<noteq> 42"
proof (cases "underline r")
  case True
  with assms show ?thesis by (simp add: inline_markup_def str_def)
next
  case False
  from assms(1) obtain x xs where "run_text r = x # xs" "x \<noteq> 42"
    by (cases "run_text r") (auto simp: clean_text_def)
  with False assms show ?thesis by (simp add: inline_markup_def)
qed

lemma plain_run_eq: "is_plain r \<Longrightarrow> plain_run (run_text r) c = r\<lparr>color := c\<rparr>"
  by (simp add: plain_run_def add_run_def is_plain_def)

lemma add_runs_inline:
  assumes "\<forall>r \<in> set rs. clean_text (run_text r) \<and> single_style r"
    and "successively (\<lambda>r1 r2. \<not> clash_styles r1 r2) rs"
  shows "add_runs_from_text (concat (map inline_markup rs)) c = map (\<lambda>r. r\<lparr>color := c\<rparr>) rs"
  using assms
proof (induction rs rule: induct_list012)
  case 1
  show ?case by (simp add: add_runs_from_text_plain)
next
  case (2 r)
  then have cl: "clean_text (run_text r)" and ss: "single_style r" by auto
  show ?case
  proof (cases "is_plain r")
    case True
    then have "inline_markup r = run_text r" by (simp add: inline_markup_def is_plain_def)
    then show ?thesis
      using add_runs_plain [OF cl, of c] plain_run_eq [OF True, of c] by simp
  next
    case False
    have "add_runs_from_text (inline_markup r @ []) c = r\<lparr>color := c\<rparr> # add_runs_from_text [] c"
      by (rule add_runs_styled [OF cl ss False]) simp
    then show ?thesis by (simp add: add_runs_from_text_plain)
  qed
next
  case (3 r r2 rs)
  from "3.prems" have cl: "clean_text (run_text r)" and ss: "single_style r"
    and cl2: "clean_text (run_text r2)" and ss2: "single_style r2"
    and rest: "\<forall>r \<in> set rs. clean_text (run_text r) \<and> single_style r"
    and adj: "\<not> clash_styles r r2"
    and succ2: "successively (\<lambda>r1 r2. \<not> clash_styles r1 r2) (r2 # rs)"
    by auto
  let ?R2 = "concat (map inline_markup rs)"
  have ih2: "add_runs_from_text (concat (map inline_markup (r2 # rs))) c
             = map (\<lambda>r. r\<lparr>color := c\<rparr>) (r2 # rs)"
    using "3.prems" by (intro "3.IH"(2)) auto
  have follow: "\<not> italic r2 \<and> \<not> bold r2 \<longrightarrow> hd (inline_markup r2 @ ?R2) \<noteq> 42"
    using hd_inline_markup [OF cl2] by blast
  show ?case
  proof (cases "is_plain r")
    case False
    have "italic r \<longrightarrow> inline_markup r2 @ ?R2 = [] \<or> hd (inline_markup r2 @ ?R2) \<noteq> 42"
      using adj follow by (auto simp: clash_styles_def)
    from add_runs_styled [OF cl ss False this, of c] ih2
    show ?thesis by simp
  next
    case True
    then have im: "inline_markup r = run_text r" by (simp add: inline_markup_def is_plain_def)
    from adj True have np2: "\<not> is_plain r2" by (simp add: clash_styles_def)
    have ih: "add_runs_from_text ?R2 c = map (\<lambda>r. r\<lparr>color := c\<rparr>) rs"
      using rest succ2 by (intro "3.IH"(1)) (auto simp: successively_Cons)
    have "italic r2 \<longrightarrow> ?R2 = [] \<or> hd ?R2 \<noteq> 42"
    proof (cases rs)
      case Nil
      then show ?thesis by simp
    next
      case (Cons r3 rs')
      with succ2 have a: "\<not> clash_styles r2 r3" by simp
      from rest Cons have cl3: "clean_text (run_text r3)" by simp
      show ?thesis
        using a hd_inline_markup [OF cl3, of "concat (map inline_markup rs')"] Cons
        by (auto simp: clash_styles_def)
    qed
    from add_runs_plain_styled [OF cl cl2 ss2 np2 this, of c] ih
    show ?thesis using plain_run_eq [OF True, of c] by (simp add: im)
  qed
qed


section \<open>Round trip: colour tags\<close>

lemma hex_digit_val_digit_char: "d < 16 \<Longrightarrow> hex_digit_val (digit_char d) = Some d"
  by (auto simp: hex_digit_val_def digit_char_def)

lemma digit_char_not_space: "d < 16 \<Longrightarrow> \<not> py_isspace (digit_char d)"
  by (auto simp: py_isspace_def digit_char_def)

lemma digit_char_is_hex: "d < 16 \<Longrightarrow> is_hex (digit_char d)"
  by (auto simp: is_hex_def digit_char_def)

lemma digit_char_range: "d < 16 \<Longrightarrow> 48 \<le> digit_char d \<and> digit_char d \<le> 70"
  by (auto simp: digit_char_def)

lemma py_int16_two_digits:
  assumes "a < 16" "b < 16"
  shows "py_int16 [digit_char a, digit_char b] = Inr (int (16 * a + b))"
proof -
  have s: "strip [digit_char a, digit_char b] = [digit_char a, digit_char b]"
    using digit_char_not_space [OF assms(1)] digit_char_not_space [OF assms(2)]
    by (simp add: strip_def lstrip_def rstrip_def)
  have r: "48 \<le> digit_char a \<and> digit_char a \<le> 70" "48 \<le> digit_char b \<and> digit_char b \<le> 70"
    using digit_char_range assms by blast+
  have p: "\<not> startswith (str ''0x'') [digit_char a, digit_char b]"
      "\<not> startswith (str ''0X'') [digit_char a, digit_char b]"
    using r by (auto simp: startswith_def str_def)
  show ?thesis
    unfolding py_int16_def s Let_def
    using r p hex_digit_val_digit_char [OF assms(1)] hex_digit_val_digit_char [OF assms(2)]
    by simp
qed

lemma py_int16_fmt_02X:
  assumes "0 \<le> n" "n < 256"
  shows "py_int16 (fmt_02X n) = Inr n"
proof -
  have a: "nat n div 16 < 16" and b: "nat n mod 16 < 16" using assms by auto
  have "int (16 * (nat n div 16) + nat n mod 16) = n" using assms by simp
  then show ?thesis
    using py_int16_two_digits [OF a b] by (simp add: fmt_02X_byte [OF assms])
qed

lemma fmt_02X_byte_props:
  assumes "0 \<le> n" "n < 256"
  shows "length (fmt_02X n) = 2" "\<forall>c \<in> set (fmt_02X n). is_hex c \<and> \<not> py_isspace c"
proof -
  have a: "nat n div 16 < 16" and b: "nat n mod 16 < 16" using assms by auto
  show "length (fmt_02X n) = 2" by (simp add: fmt_02X_byte [OF assms])
  show "\<forall>c \<in> set (fmt_02X n). is_hex c \<and> \<not> py_isspace c"
    using digit_char_is_hex [OF a] digit_char_is_hex [OF b]
      digit_char_not_space [OF a] digit_char_not_space [OF b]
    by (simp add: fmt_02X_byte [OF assms])
qed

lemma strip_id:
  assumes "\<forall>c \<in> set s. \<not> py_isspace c"
  shows "strip s = s"
proof -
  have "dropWhile py_isspace s = s" using assms by (cases s) auto
  moreover have "dropWhile py_isspace (rev s) = rev s" using assms by (cases "rev s") auto
  ultimately show ?thesis by (simp add: strip_def lstrip_def rstrip_def)
qed

lemma hex_of_props:
  assumes "hex_tagged c"
  shows "good_hex (hex_of c)" "hex_to_rgbcolor (hex_of c) = Inr c"
    "get_color_tag (r\<lparr>color := Some c\<rparr>) = Some (35 # hex_of c)"
proof -
  obtain x y z where c: "c = RGB x y z" by (cases c)
  from assms c have cx: "0 \<le> x" "x < 256" and cy: "0 \<le> y" "y < 256" and cz: "0 \<le> z" "z < 256"
    by (auto simp: hex_tagged_def)
  note px = fmt_02X_byte_props [OF cx] and py = fmt_02X_byte_props [OF cy]
    and pz = fmt_02X_byte_props [OF cz]
  show g: "good_hex (hex_of c)"
    using px py pz by (auto simp: good_hex_def hex_of_def c)
  have ns: "\<forall>ch \<in> set (hex_of c). \<not> py_isspace ch"
    using px py pz by (auto simp: hex_of_def c)
  have sl: "py_slice (hex_of c) 0 2 = fmt_02X x" "py_slice (hex_of c) 2 4 = fmt_02X y"
    "py_slice (hex_of c) 4 6 = fmt_02X z"
    using px(1) py(1) pz(1) by (simp_all add: py_slice_def py_index_def hex_of_def c)
  show "hex_to_rgbcolor (hex_of c) = Inr c"
    unfolding hex_to_rgbcolor_def strip_id [OF ns] Let_def sl
    using g cx cy cz
    by (simp add: good_hex_def py_int16_fmt_02X RGBColor_def c)
  show "get_color_tag (r\<lparr>color := Some c\<rparr>) = Some (35 # hex_of c)"
    using assms by (auto simp: get_color_tag_def hex_tagged_def hex_of_def c)
qed

lemma shift_color_by_0 [simp]: "shift_color_by 0 m = m"
  by (simp add: shift_color_by_def)

lemma color_match_here_other: "x \<noteq> 60 \<Longrightarrow> color_match_here (x # xs) = None"
  by (auto simp: color_match_here_def open_tag_here_def str_def)

lemma color_search_skip:
  "60 \<notin> set t \<Longrightarrow> color_search (t @ T) = map_option (shift_color_by (length t)) (color_search T)"
proof (induction t)
  case Nil
  show ?case by (simp add: option.map_ident)
next
  case (Cons x t)
  then have a: "color_match_here (x # t @ T) = None"
    by (intro color_match_here_other) auto
  from Cons have b: "color_search (t @ T) = map_option (shift_color_by (length t)) (color_search T)"
    by simp
  have c: "map_option shift_color_match (map_option (shift_color_by (length t)) (color_search T))
           = map_option (shift_color_by (Suc (length t))) (color_search T)"
    by (cases "color_search T") (simp_all add: shift_color_match_def shift_color_by_def)
  show ?case by (simp add: a b c)
qed

lemma color_search_none: "60 \<notin> set t \<Longrightarrow> color_search t = None"
  using color_search_skip [of t "[]"] by simp

lemma find_sub_skip:
  assumes "sub \<noteq> []" "hd sub \<notin> set xs"
  shows "find_sub sub (xs @ sub @ T) = Some (length xs)"
  using assms(2)
proof (induction xs)
  case Nil
  obtain c cs where e: "sub @ T = c # cs" using assms(1) by (cases sub) auto
  have "startswith sub (sub @ T)" by (simp add: startswith_def)
  then show ?case using e by simp
next
  case (Cons x xs)
  have "\<not> startswith sub (x # xs @ sub @ T)"
    using Cons.prems assms(1) by (cases sub) (auto simp: startswith_def)
  then show ?case using Cons by simp
qed

lemma color_search_head:
  assumes "good_hex hx" "60 \<notin> set inner"
  shows "color_search (str ''<#'' @ hx @ str ''>'' @ inner @ str ''</#'' @ hx @ str ''>'' @ T)
         = Some \<lparr>c_start = 0, c_hex = hx, c_inner = inner, c_end = length inner + 19\<rparr>"
proof -
  let ?close = "str ''</#'' @ hx @ str ''>''"
  let ?t = "60 # 35 # hx @ 62 # (inner @ ?close @ T)"
  have o: "open_tag_here ?t = Some hx"
    using assms(1) by (rule open_tag_here_tag)
  have d: "drop 9 ?t = inner @ ?close @ T"
    using assms(1) by (simp add: good_hex_def)
  have "hd ?close \<notin> set inner" "?close \<noteq> []" using assms(2) by (simp_all add: str_def)
  then have "find_sub ?close (inner @ ?close @ T) = Some (length inner)"
    by (intro find_sub_skip) auto
  then have f: "find_sub ?close (inner @ str ''</#'' @ hx @ str ''>'' @ T) = Some (length inner)"
    by simp
  have "color_match_here ?t
        = Some \<lparr>c_start = 0, c_hex = hx, c_inner = inner, c_end = length inner + 19\<rparr>"
    unfolding color_match_here_def o d by (simp add: f)
  then have cs: "color_search ?t
        = Some \<lparr>c_start = 0, c_hex = hx, c_inner = inner, c_end = length inner + 19\<rparr>"
    by simp
  have e: "str ''<#'' @ hx @ str ''>'' @ inner @ str ''</#'' @ hx @ str ''>'' @ T = ?t"
    by (simp add: str_def)
  show ?thesis unfolding e by (rule cs)
qed

lemma inline_markup_single:
  "single_style r \<Longrightarrow>
   (let text0 = run_text r;
        text1 = (if bold r then str ''**'' @ text0 @ str ''**'' else text0);
        text2 = (if italic r then str ''*'' @ text1 @ str ''*'' else text1)
    in (if underline r then str ''__'' @ text2 @ str ''__'' else text2)) = inline_markup r"
  by (auto simp: inline_markup_def single_style_def Let_def)

lemma run_markup_simple:
  assumes "simple_run r"
  shows "run_markup r =
     (case color r of
        None \<Rightarrow> inline_markup r
      | Some c \<Rightarrow> str ''<#'' @ hex_of c @ str ''>'' @ inline_markup r
                  @ str ''</#'' @ hex_of c @ str ''>'')"
proof -
  from assms have ne: "run_text r \<noteq> []" and ss: "single_style r"
    by (auto simp: simple_run_def clean_text_def)
  show ?thesis
  proof (cases "color r")
    case None
    then have "get_color_tag r = None" by (simp add: get_color_tag_def)
    then show ?thesis
      using ne inline_markup_single [OF ss] None by (simp add: run_markup_def Let_def)
  next
    case (Some c)
    with assms have "hex_tagged c" by (simp add: simple_run_def)
    from hex_of_props(3) [OF this, of r] Some
    have "get_color_tag r = Some (35 # hex_of c)" by (cases r) simp
    then show ?thesis
      using ne inline_markup_single [OF ss] Some
      by (simp add: run_markup_def Let_def str_def)
  qed
qed

lemma inline_markup_no_lt: "clean_text (run_text r) \<Longrightarrow> 60 \<notin> set (inline_markup r)"
  by (auto simp: inline_markup_def clean_text_def str_def)

lemma runs_markup_append: "runs_markup (xs @ ys) = runs_markup xs @ runs_markup ys"
  by (simp add: runs_markup_def)

lemma runs_markup_uncoloured:
  assumes "\<forall>r \<in> set seg. simple_run r \<and> color r = None"
  shows "runs_markup seg = concat (map inline_markup seg)" "60 \<notin> set (runs_markup seg)"
proof -
  have "\<forall>r \<in> set seg. run_markup r = inline_markup r"
    using assms by (auto simp: run_markup_simple)
  then show e: "runs_markup seg = concat (map inline_markup seg)"
    by (simp add: runs_markup_def cong: map_cong)
  have "\<forall>r \<in> set seg. 60 \<notin> set (inline_markup r)"
  proof (intro ballI)
    fix r assume "r \<in> set seg"
    then have "clean_text (run_text r)" using assms by (simp add: simple_run_def)
    then show "60 \<notin> set (inline_markup r)" by (rule inline_markup_no_lt)
  qed
  then show "60 \<notin> set (runs_markup seg)" unfolding e by auto
qed

lemma no_clash_uncoloured:
  assumes "\<forall>r \<in> set seg. color r = None" "no_clash seg"
  shows "successively (\<lambda>r1 r2. \<not> clash_styles r1 r2) seg"
  using assms unfolding no_clash_def
  by (induction seg rule: induct_list012) (auto simp: clash_def)

lemma add_runs_uncoloured:
  assumes "\<forall>r \<in> set seg. simple_run r \<and> color r = None" "no_clash seg"
  shows "add_runs_from_text (runs_markup seg) None = seg"
proof -
  have a: "\<forall>r \<in> set seg. clean_text (run_text r) \<and> single_style r"
    using assms(1) by (auto simp: simple_run_def)
  have b: "successively (\<lambda>r1 r2. \<not> clash_styles r1 r2) seg"
    using assms by (intro no_clash_uncoloured) auto
  have "map (\<lambda>r. r\<lparr>color := None\<rparr>) seg = seg"
    using assms(1) by (induction seg) auto
  then show ?thesis
    using add_runs_inline [OF a b, of None] runs_markup_uncoloured(1) [OF assms(1)] by simp
qed

lemma add_runs_coloured:
  assumes "simple_run r" "color r = Some c"
  shows "add_runs_from_text (inline_markup r) (color_of_hex (hex_of c)) = [r]"
proof -
  from assms have h: "hex_tagged c" by (simp add: simple_run_def)
  have col: "color_of_hex (hex_of c) = Some c"
    using hex_of_props(2) [OF h] by (simp add: color_of_hex_def)
  have a: "\<forall>x \<in> set [r]. clean_text (run_text x) \<and> single_style x"
    using assms(1) by (simp add: simple_run_def)
  have "add_runs_from_text (concat (map inline_markup [r])) (Some c) = map (\<lambda>x. x\<lparr>color := Some c\<rparr>) [r]"
    by (rule add_runs_inline [OF a]) simp
  moreover have "r\<lparr>color := Some c\<rparr> = r" using assms(2) by (cases r) simp
  ultimately show ?thesis by (simp add: col)
qed

lemma no_clash_append: "no_clash (xs @ ys) \<Longrightarrow> no_clash xs \<and> no_clash ys"
  by (auto simp: no_clash_def successively_append_iff)

lemma no_clash_tl: "no_clash (x # xs) \<Longrightarrow> no_clash xs"
  by (cases xs) (auto simp: no_clash_def)

lemma color_runs_markup:
  assumes "list_all simple_run rs" "no_clash rs"
  shows "color_runs (runs_markup rs) = rs"
  using assms
proof (induction "length rs" arbitrary: rs rule: less_induct)
  case less
  let ?seg = "takeWhile (\<lambda>r. color r = None) rs"
  let ?rest = "dropWhile (\<lambda>r. color r = None) rs"
  have split: "rs = ?seg @ ?rest" by simp
  have simple: "\<forall>r \<in> set rs. simple_run r" using less.prems(1) by (simp add: list_all_iff)
  have seg: "\<forall>r \<in> set ?seg. simple_run r \<and> color r = None"
    using simple by (auto dest: set_takeWhileD)
  have nc: "no_clash ?seg" "no_clash ?rest"
    using no_clash_append [of ?seg ?rest] less.prems(2) by simp_all
  have tok: "add_runs_from_text (runs_markup ?seg) None = ?seg"
    using seg nc(1) by (rule add_runs_uncoloured)
  have nolt: "60 \<notin> set (runs_markup ?seg)"
    using seg by (rule runs_markup_uncoloured(2))
  show ?case
  proof (cases ?rest)
    case Nil
    with split have all: "rs = ?seg" by (metis append_Nil2)
    have "color_search (runs_markup ?seg) = None"
      using nolt by (rule color_search_none)
    then have "color_runs (runs_markup ?seg) = add_runs_from_text (runs_markup ?seg) None"
      by (subst color_runs.simps) (simp add: add_runs_from_text_plain)
    with tok all show ?thesis by simp
  next
    case (Cons r rest')
    then have "r \<in> set rs" by (metis split in_set_conv_decomp)
    then have sr: "simple_run r" using simple by blast
    from Cons obtain c where c: "color r = Some c"
      using hd_dropWhile [of "\<lambda>r. color r = None" rs] by (cases "color r") auto
    from sr c have h: "hex_tagged c" by (simp add: simple_run_def)
    have rs': "rs = ?seg @ r # rest'" using split Cons by simp
    have len: "length rest' < length rs" by (subst rs') simp
    have simple': "list_all simple_run rest'"
      using simple rs' by (metis Un_iff list_all_iff set_append set_subset_Cons subsetD)
    have nc': "no_clash rest'" using nc(2) Cons no_clash_tl by simp
    have ih: "color_runs (runs_markup rest') = rest'"
      using len simple' nc' by (rule less.hyps)
    let ?inl = "inline_markup r"
    let ?n = "length (runs_markup ?seg)"
    define tag where "tag = str ''<#'' @ hex_of c @ str ''>'' @ ?inl @ str ''</#'' @ hex_of c @ str ''>''"
    have mk: "run_markup r = tag"
      using run_markup_simple [OF sr] c by (simp add: tag_def)
    have block: "runs_markup rs = runs_markup ?seg @ tag @ runs_markup rest'"
      by (subst rs') (simp add: runs_markup_def mk)
    have inl: "60 \<notin> set ?inl"
      using sr by (intro inline_markup_no_lt) (simp add: simple_run_def)
    have lentag: "length tag = length ?inl + 19"
      using hex_of_props(1) [OF h] by (simp add: tag_def good_hex_def str_def)
    have "color_search (tag @ runs_markup rest')
        = Some \<lparr>c_start = 0, c_hex = hex_of c, c_inner = ?inl, c_end = length ?inl + 19\<rparr>"
      using color_search_head [OF hex_of_props(1) [OF h] inl, of "runs_markup rest'"]
      by (simp add: tag_def)
    then have search: "color_search (runs_markup rs)
        = Some \<lparr>c_start = ?n, c_hex = hex_of c, c_inner = ?inl, c_end = length ?inl + 19 + ?n\<rparr>"
      unfolding block by (simp add: color_search_skip [OF nolt] shift_color_by_def)
    have tk: "take ?n (runs_markup rs) = runs_markup ?seg" unfolding block by simp
    have dr: "drop (length ?inl + 19 + ?n) (runs_markup rs) = runs_markup rest'"
      unfolding block by (simp add: lentag)
    have pre: "(if 0 < ?n then add_runs_from_text (runs_markup ?seg) None else []) = ?seg"
    proof (cases "runs_markup ?seg = []")
      case True
      have "add_runs_from_text [] None = []" by (simp add: add_runs_from_text_plain)
      with tok True have "?seg = []" by metis
      with True show ?thesis by simp
    next
      case False
      with tok show ?thesis by simp
    qed
    have "color_runs (runs_markup rs)
          = (if 0 < ?n then add_runs_from_text (take ?n (runs_markup rs)) None else [])
            @ add_runs_from_text ?inl (color_of_hex (hex_of c))
            @ color_runs (drop (length ?inl + 19 + ?n) (runs_markup rs))"
      by (subst color_runs.simps) (simp add: search)
    also have "\<dots> = ?seg @ add_runs_from_text ?inl (color_of_hex (hex_of c))
                       @ color_runs (runs_markup rest')"
      unfolding tk dr pre by (rule refl)
    also have "\<dots> = ?seg @ [r] @ rest'"
      using add_runs_coloured [OF sr c] ih by simp
    finally show ?thesis using rs' by simp
  qed
qed


section \<open>Round trip: paragraphs and documents\<close>

lemma block_ok_strip: "block_ok b \<Longrightarrow> strip b = b"
  by (simp add: block_ok_def strip_edges)

lemma run_markup_nonempty: "simple_run r \<Longrightarrow> run_markup r \<noteq> []"
  by (auto simp: run_markup_simple simple_run_def clean_text_def inline_markup_def str_def
        split: option.splits)

lemma hex_of_no_nl: "hex_tagged c \<Longrightarrow> 10 \<notin> set (hex_of c)"
  using hex_of_props(1) [of c] by (auto simp: good_hex_def is_hex_def)

lemma run_markup_no_nl: "simple_run r \<Longrightarrow> 10 \<notin> set (run_markup r)"
  by (auto simp: run_markup_simple simple_run_def clean_text_def inline_markup_def str_def
        hex_of_no_nl split: option.splits)

lemma simple_body_block:
  assumes "simple_body rs"
  shows "block_ok (runs_markup rs)" "color_runs (runs_markup rs) = rs"
    "strip (concat (map run_text rs)) \<noteq> []"
proof -
  from assms have ne: "rs \<noteq> []" and sr: "list_all simple_run rs" and nc: "no_clash rs"
    and vis: "strip (concat (map run_text rs)) \<noteq> []"
    and e: "\<not> py_isspace (hd (runs_markup rs))" "\<not> py_isspace (last (runs_markup rs))"
    by (simp_all add: simple_body_def)
  obtain r rs' where "rs = r # rs'" using ne by (cases rs) auto
  then have "runs_markup rs \<noteq> []"
    using sr run_markup_nonempty [of r] by (simp add: runs_markup_def)
  moreover have "10 \<notin> set (runs_markup rs)"
    using sr run_markup_no_nl by (auto simp: runs_markup_def list_all_iff)
  ultimately show "block_ok (runs_markup rs)" using e by (simp add: block_ok_def)
  show "color_runs (runs_markup rs) = rs" using sr nc by (rule color_runs_markup)
  show "strip (concat (map run_text rs)) \<noteq> []" by (rule vis)
qed

lemma para_normal:
  assumes "style_name p = str ''Normal''" "simple_body (runs p)"
    and "\<not> startswith (str ''#'') (runs_markup (runs p))"
    and "\<not> startswith [8226, 32] (runs_markup (runs p))"
    and "\<not> startswith (str ''1. '') (runs_markup (runs p))"
  shows "para_line p = Inr (Some (runs_markup (runs p)))"
    "process_block_into_para (runs_markup (runs p)) = Inr p"
proof -
  note b = simple_body_block [OF assms(2)]
  have l: "py_lower (str ''Normal'') = str ''normal''" by (simp add: py_lower_def str_def)
  have s: "\<not> startswith (str ''heading'') (str ''normal'')"
    "\<not> contains (str ''list bullet'') (str ''normal'')"
    "\<not> contains (str ''list paragraph'') (str ''normal'')"
    "\<not> contains (str ''list number'') (str ''normal'')"
    by (simp_all add: startswith_def str_def)
  show "para_line p = Inr (Some (runs_markup (runs p)))"
    using b(3) block_ok_strip [OF b(1)]
    by (simp add: para_line_def para_text_def assms(1) l s Let_def runs_markup_def)
  show "process_block_into_para (runs_markup (runs p)) = Inr p"
    using assms(1,3,4,5) b(2) by (simp add: process_block_into_para_def)
qed

lemma para_bullet:
  assumes "style_name p = str ''List Bullet''" "simple_body (runs p)"
  shows "para_line p = Inr (Some ([8226, 32] @ runs_markup (runs p)))"
    "process_block_into_para ([8226, 32] @ runs_markup (runs p)) = Inr p"
    "block_ok ([8226, 32] @ runs_markup (runs p))"
proof -
  note b = simple_body_block [OF assms(2)]
  have l: "py_lower (str ''List Bullet'') = str ''list bullet''" by (simp add: py_lower_def str_def)
  have s: "\<not> startswith (str ''heading'') (str ''list bullet'')"
    "contains (str ''list bullet'') (str ''list bullet'')"
    by (simp_all add: startswith_def str_def)
  show "para_line p = Inr (Some ([8226, 32] @ runs_markup (runs p)))"
    using b(3) block_ok_strip [OF b(1)]
    by (simp add: para_line_def para_text_def assms(1) l s Let_def runs_markup_def)
  have "\<not> startswith (str ''#'') ([8226, 32] @ runs_markup (runs p))"
    "startswith [8226, 32] ([8226, 32] @ runs_markup (runs p))"
    by (simp_all add: startswith_def str_def)
  then show "process_block_into_para ([8226, 32] @ runs_markup (runs p)) = Inr p"
    using assms(1) b(2) block_ok_strip [OF b(1)] by (simp add: process_block_into_para_def)
  show "block_ok ([8226, 32] @ runs_markup (runs p))"
    using b(1) by (simp add: block_ok_def py_isspace_def)
qed

lemma para_number:
  assumes "style_name p = str ''List Number''" "simple_body (runs p)"
  shows "para_line p = Inr (Some (str ''1. '' @ runs_markup (runs p)))"
    "process_block_into_para (str ''1. '' @ runs_markup (runs p)) = Inr p"
    "block_ok (str ''1. '' @ runs_markup (runs p))"
proof -
  note b = simple_body_block [OF assms(2)]
  have l: "py_lower (str ''List Number'') = str ''list number''" by (simp add: py_lower_def str_def)
  have s: "\<not> startswith (str ''heading'') (str ''list number'')"
    "\<not> contains (str ''list bullet'') (str ''list number'')"
    "\<not> contains (str ''list paragraph'') (str ''list number'')"
    "contains (str ''list number'') (str ''list number'')"
    by (simp_all add: startswith_def str_def)
  show "para_line p = Inr (Some (str ''1. '' @ runs_markup (runs p)))"
    using b(3) block_ok_strip [OF b(1)]
    by (simp add: para_line_def para_text_def assms(1) l s Let_def runs_markup_def)
  have "\<not> startswith (str ''#'') (str ''1. '' @ runs_markup (runs p))"
    "\<not> startswith [8226, 32] (str ''1. '' @ runs_markup (runs p))"
    "startswith (str ''1. '') (str ''1. '' @ runs_markup (runs p))"
    "drop 3 (str ''1. '' @ runs_markup (runs p)) = runs_markup (runs p)"
    by (simp_all add: startswith_def str_def)
  then show "process_block_into_para (str ''1. '' @ runs_markup (runs p)) = Inr p"
    using assms(1) b(2) block_ok_strip [OF b(1)] by (simp add: process_block_into_para_def)
  show "block_ok (str ''1. '' @ runs_markup (runs p))"
    using b(1) by (simp add: block_ok_def py_isspace_def str_def)
qed


end
